theory Spec2Isabelle
  imports Main "HOL-Library.Log_Nat" "HOL-Library.Monad_Syntax"
begin

section \<open>Strings\<close>

text \<open>
  The script works on JavaScript strings. A string is modelled as a \<^typ>\<open>string\<close>,
  one \<^typ>\<open>char\<close> for each code unit with a code below 256. \<open>String.prototype.trim\<close>
  removes white space and line terminators from both ends; in this range these are
  TAB, LF, VT, FF, CR, SPACE and NBSP.
\<close>

definition is_ws :: "char \<Rightarrow> bool" where
  "is_ws c \<longleftrightarrow> c \<in> set [CHR 0x09, CHR 0x0A, CHR 0x0B, CHR 0x0C, CHR 0x0D, CHR 0x20, CHR 0xA0]"

definition trim :: "string \<Rightarrow> string" where
  "trim s = rev (dropWhile is_ws (rev (dropWhile is_ws s)))"

text \<open>
  \<open>s.split(sep)\<close> for a separator of one character: the pieces between the separators;
  the empty string gives one empty piece. \<open>content.split('\n')\<close> splits at line feeds.
\<close>

fun split_on :: "char \<Rightarrow> string \<Rightarrow> string list" where
  "split_on sep [] = [[]]"
| "split_on sep (c # cs) =
     (let pieces = split_on sep cs
      in if c = sep then [] # pieces else (c # hd pieces) # tl pieces)"

definition split_lines :: "string \<Rightarrow> string list" where
  "split_lines content = split_on (CHR 0x0A) content"

text \<open>\<open>xs.join(',')\<close> on an array of strings.\<close>

fun join_comma :: "string list \<Rightarrow> string" where
  "join_comma [] = []"
| "join_comma [x] = x"
| "join_comma (x # y # ys) = x @ CHR '','' # join_comma (y # ys)"

section \<open>Plain objects used as dictionaries\<close>

text \<open>
  \<open>missingValues\<close> and \<open>frequency\<close> are object literals \<open>{}\<close>, so a read of a key that
  is not an own property falls through to \<open>Object.prototype\<close>. The own properties are
  a map; a read yields the own value, or the inherited member for one of the names below,
  or \<open>undefined\<close>. A write creates an own property, except for \<open>__proto__\<close>, whose
  inherited setter ignores a value that is neither an object nor \<open>null\<close>.
\<close>

definition object_prototype_keys :: "string list" where
  "object_prototype_keys =
     [''constructor'', ''hasOwnProperty'', ''isPrototypeOf'', ''propertyIsEnumerable'',
      ''toLocaleString'', ''toString'', ''valueOf'', ''__proto__'',
      ''__defineGetter__'', ''__defineSetter__'', ''__lookupGetter__'', ''__lookupSetter__'']"

datatype 'v lookup = Own 'v | Inherited | Absent

definition obj_get :: "(string \<rightharpoonup> 'v) \<Rightarrow> string \<Rightarrow> 'v lookup" where
  "obj_get m k =
     (case m k of
        Some v \<Rightarrow> Own v
      | None \<Rightarrow> if k \<in> set object_prototype_keys then Inherited else Absent)"

definition obj_set :: "(string \<rightharpoonup> 'v) \<Rightarrow> string \<Rightarrow> 'v \<Rightarrow> (string \<rightharpoonup> 'v)" where
  "obj_set m k v = (if k = ''__proto__'' then m else m(k \<mapsto> v))"

section \<open>The dataset\<close>

text \<open>
  A counter stored in \<open>missingValues\<close> is a number; incrementing an inherited member
  (a function) stores \<open>NaN\<close>.
\<close>

datatype mcount = Cnt nat | CntNaN

record stats =
  totalRows :: int
  missingValues :: "string \<rightharpoonup> mcount"

record 'f dataset =
  headers :: "string list"
  rows :: "'f list list"
  stats :: stats

datatype error = TypeError

section \<open>parseCSVLine\<close>

text \<open>The loop state is \<open>(result, inQuotes, currentField)\<close>.\<close>

fun parseCSVLine_loop :: "string \<Rightarrow> string list \<times> bool \<times> string \<Rightarrow> string list \<times> bool \<times> string" where
  "parseCSVLine_loop [] st = st"
| "parseCSVLine_loop (c # cs) (result, inQuotes, currentField) =
     (if c = CHR 0x22 then parseCSVLine_loop cs (result, \<not> inQuotes, currentField)
      else if c = CHR '','' \<and> \<not> inQuotes then
        parseCSVLine_loop cs (result @ [trim currentField], inQuotes, [])
      else parseCSVLine_loop cs (result, inQuotes, currentField @ [c]))"

definition parseCSVLine :: "string \<Rightarrow> string list" where
  "parseCSVLine line =
     (case parseCSVLine_loop line ([], False, []) of
        (result, inQuotes, currentField) \<Rightarrow> result @ [trim currentField])"

section \<open>parseCSV\<close>

text \<open>\<open>headers[idx]\<close> used as a property key: past the end it is \<open>undefined\<close>, which names the key \<open>"undefined"\<close>.\<close>

definition header_key :: "string list \<Rightarrow> nat \<Rightarrow> string" where
  "header_key hs idx = (if idx < length hs then hs ! idx else ''undefined'')"

text \<open>\<open>!missingValues[k]\<close>: the read is falsy for \<open>undefined\<close>, \<open>0\<close> and \<open>NaN\<close>.\<close>

fun falsy_count :: "mcount lookup \<Rightarrow> bool" where
  "falsy_count (Own (Cnt n)) = (n = 0)"
| "falsy_count (Own CntNaN) = True"
| "falsy_count Inherited = False"
| "falsy_count Absent = True"

text \<open>\<open>missingValues[k]++\<close>: the value written back.\<close>

fun incremented :: "mcount lookup \<Rightarrow> mcount" where
  "incremented (Own (Cnt n)) = Cnt (Suc n)"
| "incremented (Own CntNaN) = CntNaN"
| "incremented Inherited = CntNaN"
| "incremented Absent = CntNaN"

definition track_missing :: "string list \<Rightarrow> nat \<times> string \<Rightarrow> (string \<rightharpoonup> mcount) \<Rightarrow> (string \<rightharpoonup> mcount)" where
  "track_missing hs iv mv =
     (if snd iv = [] then
        (let k = header_key hs (fst iv);
             mv1 = (if falsy_count (obj_get mv k) then obj_set mv k (Cnt 0) else mv)
         in obj_set mv1 k (incremented (obj_get mv1 k)))
      else mv)"

definition track_row :: "string list \<Rightarrow> string list \<Rightarrow> (string \<rightharpoonup> mcount) \<Rightarrow> (string \<rightharpoonup> mcount)" where
  "track_row hs vals mv = fold (track_missing hs) (enumerate 0 vals) mv"

text \<open>
  \<open>parseCSV\<close> assigns the global \<open>dataset\<close>; the model returns it. With no line left after
  the filter, \<open>lines[0]\<close> is \<open>undefined\<close> and \<open>parseCSVLine\<close> throws a \<open>TypeError\<close> on
  \<open>line.length\<close>.
\<close>

definition parseCSV :: "string \<Rightarrow> error + string dataset" where
  "parseCSV content =
     (let lines = filter (\<lambda>line. trim line \<noteq> []) (split_lines content)
      in case lines of
           [] \<Rightarrow> Inl TypeError
         | l0 # rest \<Rightarrow>
             (let hs = parseCSVLine l0;
                  rs = map parseCSVLine rest
              in Inr \<lparr>headers = hs, rows = rs,
                      stats = \<lparr>totalRows = int (length lines) - 1,
                               missingValues = fold (track_row hs) rs Map.empty\<rparr>\<rparr>))"

section \<open>Numbers\<close>

text \<open>
  A JavaScript number is an IEEE 754 double. A finite double is held as the rational it
  denotes (\<open>Fin 0\<close> is \<open>+0\<close>), and every operation rounds its exact result to the nearest
  double, ties to the even significand, as the language requires.
\<close>

datatype jsnum = Fin rat | NegZero | PosInf | NegInf | NaN

definition pow2 :: "int \<Rightarrow> rat" where
  "pow2 e = (if 0 \<le> e then 2 ^ nat e else 1 / 2 ^ nat (- e))"

text \<open>For \<open>a > 0\<close>, the exponent \<open>e\<close> with \<open>2^e \<le> a < 2^(e+1)\<close>.\<close>

definition floor_log2 :: "rat \<Rightarrow> int" where
  "floor_log2 a =
     (case quotient_of a of
        (p, q) \<Rightarrow> (let d = bitlen p - bitlen q in if pow2 d \<le> a then d else d - 1))"

definition round_half_even :: "rat \<Rightarrow> int" where
  "round_half_even m =
     (let f = \<lfloor>m\<rfloor>; r = m - of_int f
      in if r < 1 / 2 then f else if 1 / 2 < r then f + 1 else if even f then f else f + 1)"

text \<open>
  The double nearest to \<open>a > 0\<close>: 53 significant bits, subnormal below \<open>2^-1022\<close>. The
  result is infinite when it would reach \<open>2^1024\<close>: the exponent is above 1023, or it is
  1023 and the significand rounds up to \<open>2^53\<close>.
\<close>

definition round_pos :: "rat \<Rightarrow> jsnum" where
  "round_pos a =
     (let e = floor_log2 a
      in if 1023 < e then PosInf
         else (let u = pow2 (max e (- 1022) - 52);
                   n = round_half_even (a / u)
               in if e = 1023 \<and> n = 9007199254740992 then PosInf else Fin (of_int n * u)))"

fun negate :: "jsnum \<Rightarrow> jsnum" where
  "negate (Fin q) = (if q = 0 then NegZero else Fin (- q))"
| "negate NegZero = Fin 0"
| "negate PosInf = NegInf"
| "negate NegInf = PosInf"
| "negate NaN = NaN"

definition round_double :: "rat \<Rightarrow> jsnum" where
  "round_double q =
     (if q = 0 then Fin 0 else if 0 < q then round_pos q else negate (round_pos (- q)))"

fun is_finite :: "jsnum \<Rightarrow> bool" where
  "is_finite (Fin q) = True"
| "is_finite NegZero = True"
| "is_finite x = False"

fun value_of :: "jsnum \<Rightarrow> rat" where
  "value_of (Fin q) = q"
| "value_of x = 0"

fun is_negative :: "jsnum \<Rightarrow> bool" where
  "is_negative (Fin q) = (q < 0)"
| "is_negative NegZero = True"
| "is_negative NegInf = True"
| "is_negative x = False"

text \<open>\<open>a + b\<close>.\<close>

definition fadd :: "jsnum \<Rightarrow> jsnum \<Rightarrow> jsnum" where
  "fadd x y =
     (if x = NaN \<or> y = NaN then NaN
      else if x = PosInf then (if y = NegInf then NaN else PosInf)
      else if x = NegInf then (if y = PosInf then NaN else NegInf)
      else if y = PosInf \<or> y = NegInf then y
      else if x = NegZero \<and> y = NegZero then NegZero
      else round_double (value_of x + value_of y))"

text \<open>\<open>a / b\<close>.\<close>

definition fdiv :: "jsnum \<Rightarrow> jsnum \<Rightarrow> jsnum" where
  "fdiv x y =
     (let sign = (\<lambda>r. if is_negative x \<noteq> is_negative y then negate r else r)
      in if x = NaN \<or> y = NaN then NaN
         else if is_finite x then
           (if is_finite y then
              (if value_of y = 0 then (if value_of x = 0 then NaN else sign PosInf)
               else sign (round_double (\<bar>value_of x\<bar> / \<bar>value_of y\<bar>)))
            else sign (Fin 0))
         else (if is_finite y then sign PosInf else NaN))"

text \<open>
  The comparator \<open>(a, b) => a - b\<close> orders numbers by value; it answers \<open>0\<close> or \<open>NaN\<close>
  (taken as \<open>0\<close>) exactly for equal values, the two zeros and equal infinities.
\<close>

fun num_le :: "jsnum \<Rightarrow> jsnum \<Rightarrow> bool" where
  "num_le NaN y = True"
| "num_le x NaN = True"
| "num_le NegInf y = True"
| "num_le x NegInf = False"
| "num_le x PosInf = True"
| "num_le PosInf y = False"
| "num_le x y = (value_of x \<le> value_of y)"

text \<open>\<open>[...xs].sort((a, b) => a - b)\<close>: a stable sort.\<close>

fun insert_sorted :: "jsnum \<Rightarrow> jsnum list \<Rightarrow> jsnum list" where
  "insert_sorted x [] = [x]"
| "insert_sorted x (y # ys) = (if num_le x y then x # y # ys else y # insert_sorted x ys)"

definition sort_numbers :: "jsnum list \<Rightarrow> jsnum list" where
  "sort_numbers xs = foldr insert_sorted xs []"

text \<open>
  \<open>parseFloat(x.toFixed(4))\<close>. \<open>toFixed\<close> picks the integer \<open>n\<close> with \<open>n / 10^4\<close> nearest
  to \<open>|x|\<close>, the larger of two; from \<open>10^21\<close> on it prints the number itself.
\<close>

fun round4 :: "jsnum \<Rightarrow> jsnum" where
  "round4 (Fin q) =
     (if 10 ^ 21 \<le> \<bar>q\<bar> then Fin q
      else (let r = round_double (of_int \<lfloor>\<bar>q\<bar> * 10000 + 1 / 2\<rfloor> / 10000)
            in if q < 0 then negate r else r))"
| "round4 NegZero = Fin 0"
| "round4 x = x"

section \<open>parseFloat\<close>

definition is_digit :: "char \<Rightarrow> bool" where
  "is_digit c \<longleftrightarrow> (48::nat) \<le> of_char c \<and> (of_char c :: nat) \<le> 57"

definition digits_value :: "string \<Rightarrow> int" where
  "digits_value ds = foldl (\<lambda>acc c. 10 * acc + (of_char c - 48)) 0 ds"

text \<open>The exponent part \<open>e\<close>, optional sign, digits: its value, or \<open>0\<close> where the text has none.\<close>

definition exponent_part :: "string \<Rightarrow> int" where
  "exponent_part s =
     (case s of
        [] \<Rightarrow> 0
      | c # t \<Rightarrow>
          if c = CHR ''e'' \<or> c = CHR ''E'' then
            (case t of
               [] \<Rightarrow> 0
             | d # t' \<Rightarrow>
                 if d = CHR ''+'' \<and> takeWhile is_digit t' \<noteq> [] then digits_value (takeWhile is_digit t')
                 else if d = CHR ''-'' \<and> takeWhile is_digit t' \<noteq> [] then - digits_value (takeWhile is_digit t')
                 else digits_value (takeWhile is_digit t))
          else 0)"

definition pow10 :: "int \<Rightarrow> rat" where
  "pow10 e = (if 0 \<le> e then 10 ^ nat e else 1 / 10 ^ nat (- e))"

text \<open>The longest prefix that is an unsigned decimal literal, as a number; \<open>NaN\<close> when there is none.\<close>

definition unsigned_literal :: "string \<Rightarrow> jsnum" where
  "unsigned_literal s =
     (if take 8 s = ''Infinity'' then PosInf
      else
        (let ip = takeWhile is_digit s;
             r1 = dropWhile is_digit s;
             fp = (if r1 \<noteq> [] \<and> hd r1 = CHR ''.'' then takeWhile is_digit (tl r1) else []);
             r2 = (if r1 \<noteq> [] \<and> hd r1 = CHR ''.'' \<and> (ip \<noteq> [] \<or> fp \<noteq> [])
                   then dropWhile is_digit (tl r1) else r1)
         in if ip = [] \<and> fp = [] then NaN
            else round_double
                   ((of_int (digits_value ip) + of_int (digits_value fp) / 10 ^ length fp)
                     * pow10 (exponent_part r2))))"

definition parseFloat :: "string \<Rightarrow> jsnum" where
  "parseFloat input =
     (let s = dropWhile is_ws input
      in case s of
           [] \<Rightarrow> NaN
         | c # t \<Rightarrow>
             if c = CHR ''-'' then negate (unsigned_literal t)
             else if c = CHR ''+'' then unsigned_literal t
             else unsigned_literal s)"

section \<open>processData\<close>

text \<open>
  A field of the global \<open>dataset\<close> is a string, as \<open>parseCSVLine\<close> made it; a field of
  the cleaned dataset is a string or a number. A read past the end of a row is \<open>undefined\<close>.
\<close>

datatype val = Str string | Num jsnum | Undefined

text \<open>\<open>result.rows.map(row => row[colIndex]).filter(val => val !== '')\<close>: \<open>None\<close> is \<open>undefined\<close>.\<close>

definition column_values :: "string list list \<Rightarrow> nat \<Rightarrow> string option list" where
  "column_values rs colIndex =
     filter (\<lambda>v. v \<noteq> Some [])
       (map (\<lambda>row. if colIndex < length row then Some (row ! colIndex) else None) rs)"

definition to_string :: "string option \<Rightarrow> string" where
  "to_string v = (case v of Some s \<Rightarrow> s | None \<Rightarrow> ''undefined'')"

definition of_cell :: "string option \<Rightarrow> val" where
  "of_cell v = (case v of Some s \<Rightarrow> Str s | None \<Rightarrow> Undefined)"

text \<open>The callback of \<open>values.map\<close>: the parsed number, or the value itself when it is \<open>NaN\<close>.\<close>

definition numericValue :: "string option \<Rightarrow> val" where
  "numericValue v = (let num = parseFloat (to_string v) in if num = NaN then of_cell v else Num num)"

fun is_number :: "val \<Rightarrow> bool" where
  "is_number (Num x) = True"
| "is_number v = False"

fun numbers_of :: "val list \<Rightarrow> jsnum list" where
  "numbers_of [] = []"
| "numbers_of (Num x # vs) = x # numbers_of vs"
| "numbers_of (v # vs) = numbers_of vs"

text \<open>\<open>sum / numericValues.length\<close> with \<open>sum = numericValues.reduce((a, b) => a + b, 0)\<close>.\<close>

definition mean :: "jsnum list \<Rightarrow> jsnum" where
  "mean nums = fdiv (foldl fadd (Fin 0) nums) (Fin (of_nat (length nums)))"

text \<open>The list is not empty where \<open>median\<close> is called, so both reads are in range.\<close>

definition median :: "jsnum list \<Rightarrow> jsnum" where
  "median nums =
     (let sorted = sort_numbers nums; mid = length sorted div 2
      in if length sorted mod 2 \<noteq> 0 then sorted ! mid
         else fdiv (fadd (sorted ! (mid - 1)) (sorted ! mid)) (Fin 2))"

text \<open>
  In the numeric branch the keys of \<open>frequency\<close> are numbers printed as text. Two numbers
  print alike only if they are equal or the two zeros, and no number prints as a member
  name of \<open>Object.prototype\<close>; so the object is a map on numbers with \<open>-0\<close> filed under \<open>0\<close>.
  The loop state is \<open>(frequency, max, mode)\<close>.
\<close>

definition num_key :: "jsnum \<Rightarrow> jsnum" where
  "num_key x = (if x = NegZero then Fin 0 else x)"

definition number_step :: "(jsnum \<rightharpoonup> nat) \<times> nat \<times> jsnum \<Rightarrow> jsnum \<Rightarrow> (jsnum \<rightharpoonup> nat) \<times> nat \<times> jsnum" where
  "number_step st num =
     (case st of
        (frequency, mx, mode) \<Rightarrow>
          (let n = (case frequency (num_key num) of None \<Rightarrow> 0 | Some c \<Rightarrow> c) + 1;
               frequency' = frequency(num_key num \<mapsto> n)
           in if mx < n then (frequency', n, num) else (frequency', mx, mode)))"

definition mode_numbers :: "jsnum list \<Rightarrow> jsnum" where
  "mode_numbers nums = snd (snd (foldl number_step (Map.empty, 0, hd nums) nums))"

text \<open>
  In the text branch the keys are the values themselves. A stored frequency is a number,
  or the text that \<open>+ 1\<close> makes of an inherited member; such a text is \<open>NaN\<close> in the
  comparison with \<open>max\<close>.
\<close>

datatype fval = FCount nat | FText

text \<open>\<open>(frequency[val] || 0) + 1\<close>.\<close>

fun plus_one :: "fval lookup \<Rightarrow> fval" where
  "plus_one (Own (FCount n)) = FCount (Suc n)"
| "plus_one (Own FText) = FText"
| "plus_one Inherited = FText"
| "plus_one Absent = FCount 1"

definition text_step :: "(string \<rightharpoonup> fval) \<times> nat \<times> string option \<Rightarrow> string option \<Rightarrow> (string \<rightharpoonup> fval) \<times> nat \<times> string option" where
  "text_step st v =
     (case st of
        (frequency, mx, mode) \<Rightarrow>
          (let k = to_string v;
               frequency' = obj_set frequency k (plus_one (obj_get frequency k))
           in case obj_get frequency' k of
                Own (FCount n) \<Rightarrow> if mx < n then (frequency', n, v) else (frequency', mx, mode)
              | _ \<Rightarrow> (frequency', mx, mode)))"

definition mode_text :: "string option list \<Rightarrow> string option" where
  "mode_text vals = snd (snd (foldl text_step (Map.empty, 0, hd vals) vals))"

text \<open>
  The body of the loop over the headers: the entry \<open>fillValues[colIndex]\<close>, with \<open>Undefined\<close>
  where the code leaves it unset.
\<close>

definition column_fill :: "string \<Rightarrow> string option list \<Rightarrow> val" where
  "column_fill method vals =
     (if vals = [] then Str []
      else
        (let numericValues = map numericValue vals;
             isNumeric = list_all is_number numericValues
         in if isNumeric then
              (if method = ''mean'' then Num (mean (numbers_of numericValues))
               else if method = ''median'' then Num (median (numbers_of numericValues))
               else if method = ''mode'' \<or> method = ''knn'' then Num (mode_numbers (numbers_of numericValues))
               else Undefined)
            else
              (if method = ''mode'' \<or> method = ''knn'' then of_cell (mode_text vals)
               else Undefined)))"

text \<open>
  The value assigned to a field: the fill value, and for a number
  \<open>parseFloat(fillValues[colIndex].toFixed(4))\<close>.
\<close>

fun formatted :: "val \<Rightarrow> val" where
  "formatted (Num x) = Num (round4 x)"
| "formatted v = v"

text \<open>The body of the inner loop of "Apply fill values", on one row and one column.\<close>

definition fill_cell :: "val list \<Rightarrow> nat \<Rightarrow> val list \<Rightarrow> val list" where
  "fill_cell fillValues colIndex row =
     (if colIndex < length row \<and> row ! colIndex = Str [] \<and> fillValues ! colIndex \<noteq> Undefined then
        row[colIndex := formatted (fillValues ! colIndex)]
      else row)"

definition fill_row :: "val list \<Rightarrow> nat \<Rightarrow> val list \<Rightarrow> val list" where
  "fill_row fillValues n row = fold (fill_cell fillValues) [0..<n] row"

text \<open>
  \<open>processData\<close> reads the global \<open>dataset\<close>, here an argument, and returns \<open>result\<close>.
  The fields of the copy become values of the cleaned dataset when the rows are returned.
\<close>

definition processData :: "string \<Rightarrow> nat \<Rightarrow> string dataset \<Rightarrow> val dataset" where
  "processData method knnNeighbors dataset =
     (let result_headers = headers dataset;
          result_rows = rows dataset;
          result_stats = \<lparr>totalRows = totalRows (stats dataset),
                          missingValues = missingValues (stats dataset)\<rparr>
      in if method = ''drop'' then
           (let kept = filter (\<lambda>row. \<not> list_ex (\<lambda>cell. cell = []) row) result_rows
            in \<lparr>headers = result_headers, rows = map (map Str) kept,
                stats = result_stats\<lparr>totalRows := int (length kept)\<rparr>\<rparr>)
         else
           (let fillValues = map (\<lambda>colIndex. column_fill method (column_values result_rows colIndex))
                                 [0..<length result_headers]
            in \<lparr>headers = result_headers,
                rows = map (\<lambda>row. fill_row fillValues (length result_headers) (map Str row)) result_rows,
                stats = result_stats\<lparr>missingValues := Map.empty\<rparr>\<rparr>))"

section \<open>prepareDownload\<close>

text \<open>
  The text \<open>csvContent\<close>. A number is printed by the language's number-to-text
  conversion, which is the argument \<open>print_number\<close>.
\<close>

definition escape_quotes :: "string \<Rightarrow> string" where
  "escape_quotes s = concat (map (\<lambda>c. if c = CHR 0x22 then [CHR 0x22, CHR 0x22] else [c]) s)"

fun csv_field :: "(jsnum \<Rightarrow> string) \<Rightarrow> val \<Rightarrow> string" where
  "csv_field print_number (Str s) =
     (if CHR '','' \<in> set s \<or> CHR 0x0A \<in> set s then CHR 0x22 # escape_quotes s @ [CHR 0x22] else s)"
| "csv_field print_number (Num x) = print_number x"
| "csv_field print_number Undefined = []"

definition csvContent :: "(jsnum \<Rightarrow> string) \<Rightarrow> val dataset \<Rightarrow> string" where
  "csvContent print_number cleaned =
     foldl (\<lambda>acc row. acc @ join_comma (map (csv_field print_number) row) @ [CHR 0x0A])
       (join_comma (headers cleaned) @ [CHR 0x0A]) (rows cleaned)"

text \<open>
  The dataset that \<open>prepareDownload\<close> prints when cleaning changed no field: the fields of
  the parsed dataset as values.
\<close>

definition as_cleaned :: "string dataset \<Rightarrow> val dataset" where
  "as_cleaned d = \<lparr>headers = headers d, rows = map (map Str) (rows d), stats = stats d\<rparr>"

text \<open>Parsing a text and printing the dataset again.\<close>

definition reserialize :: "(jsnum \<Rightarrow> string) \<Rightarrow> string \<Rightarrow> error + string" where
  "reserialize print_number content =
     (case parseCSV content of
        Inl e \<Rightarrow> Inl e
      | Inr d \<Rightarrow> Inr (csvContent print_number (as_cleaned d)))"

section \<open>The datasets as objects\<close>

text \<open>
  \<open>processData\<close> copies the global \<open>dataset\<close> and then assigns to fields of the copy and to
  elements of its rows. To see which objects these assignments reach, the objects live in a
  store: an address is a position in the list, and a new object goes to the end.
\<close>

type_synonym addr = nat

datatype obj =
    Strings "string list"
  | Fields "val list"
  | Refs "addr list"
  | Counts "string \<rightharpoonup> mcount"
  | StatsObj int addr
  | DatasetObj addr addr addr

type_synonym heap = "obj list"

definition alloc :: "obj \<Rightarrow> heap \<Rightarrow> addr \<times> heap" where
  "alloc ob h = (length h, h @ [ob])"

definition deref :: "heap \<Rightarrow> addr \<Rightarrow> obj option" where
  "deref h a = (if a < length h then Some (h ! a) else None)"

text \<open>Reads of an object of the expected kind; \<open>None\<close> where the store holds something else.\<close>

definition get_dataset :: "heap \<Rightarrow> addr \<Rightarrow> (addr \<times> addr \<times> addr) option" where
  "get_dataset h a = (case deref h a of Some (DatasetObj x y z) \<Rightarrow> Some (x, y, z) | _ \<Rightarrow> None)"

definition get_strings :: "heap \<Rightarrow> addr \<Rightarrow> string list option" where
  "get_strings h a = (case deref h a of Some (Strings xs) \<Rightarrow> Some xs | _ \<Rightarrow> None)"

definition get_refs :: "heap \<Rightarrow> addr \<Rightarrow> addr list option" where
  "get_refs h a = (case deref h a of Some (Refs xs) \<Rightarrow> Some xs | _ \<Rightarrow> None)"

definition get_fields :: "heap \<Rightarrow> addr \<Rightarrow> val list option" where
  "get_fields h a = (case deref h a of Some (Fields xs) \<Rightarrow> Some xs | _ \<Rightarrow> None)"

definition get_stats :: "heap \<Rightarrow> addr \<Rightarrow> (int \<times> addr) option" where
  "get_stats h a = (case deref h a of Some (StatsObj n m) \<Rightarrow> Some (n, m) | _ \<Rightarrow> None)"

definition get_counts :: "heap \<Rightarrow> addr \<Rightarrow> (string \<rightharpoonup> mcount) option" where
  "get_counts h a = (case deref h a of Some (Counts m) \<Rightarrow> Some m | _ \<Rightarrow> None)"

fun all_some :: "'a option list \<Rightarrow> 'a list option" where
  "all_some [] = Some []"
| "all_some (x # xs) = (case x of None \<Rightarrow> None | Some y \<Rightarrow> map_option ((#) y) (all_some xs))"

text \<open>The dataset that an address denotes in a store.\<close>

definition read_dataset :: "heap \<Rightarrow> addr \<Rightarrow> val dataset option" where
  "read_dataset h a =
     do {
       (hA, rA, sA) \<leftarrow> get_dataset h a;
       hs \<leftarrow> get_strings h hA;
       rs \<leftarrow> get_refs h rA;
       rws \<leftarrow> all_some (map (get_fields h) rs);
       (total, mA) \<leftarrow> get_stats h sA;
       mv \<leftarrow> get_counts h mA;
       Some \<lparr>headers = hs, rows = rws, stats = \<lparr>totalRows = total, missingValues = mv\<rparr>\<rparr>
     }"

text \<open>\<open>dataset.rows.map(row => [...row])\<close>: a new array for every row; the addresses of the copies.\<close>

fun copy_rows :: "addr list \<Rightarrow> heap \<Rightarrow> (addr list \<times> heap) option" where
  "copy_rows [] h = Some ([], h)"
| "copy_rows (r # rs) h =
     do {
       cells \<leftarrow> get_fields h r;
       let (a, h1) = alloc (Fields cells) h;
       (as, h2) \<leftarrow> copy_rows rs h1;
       Some (a # as, h2)
     }"

text \<open>The fields of a row as the strings that \<open>parseCSVLine\<close> made.\<close>

fun strings_of :: "val list \<Rightarrow> string list option" where
  "strings_of [] = Some []"
| "strings_of (Str s # vs) = map_option ((#) s) (strings_of vs)"
| "strings_of (v # vs) = None"

definition rows_text :: "heap \<Rightarrow> addr list \<Rightarrow> string list list option" where
  "rows_text h as =
     all_some (map (\<lambda>a. case get_fields h a of None \<Rightarrow> None | Some cells \<Rightarrow> strings_of cells) as)"

text \<open>\<open>row.some(cell => cell === '')\<close>.\<close>

definition has_empty :: "heap \<Rightarrow> addr \<Rightarrow> bool" where
  "has_empty h a = (case get_fields h a of Some cells \<Rightarrow> list_ex (\<lambda>cell. cell = Str []) cells | None \<Rightarrow> False)"

text \<open>The assignment \<open>row[colIndex] = ...\<close> of "Apply fill values", on the row at an address.\<close>

definition fill_cell_at :: "val list \<Rightarrow> addr \<Rightarrow> nat \<Rightarrow> heap \<Rightarrow> heap" where
  "fill_cell_at fillValues a colIndex h =
     (case get_fields h a of
        Some cells \<Rightarrow> h[a := Fields (fill_cell fillValues colIndex cells)]
      | None \<Rightarrow> h)"

definition apply_fill :: "val list \<Rightarrow> nat \<Rightarrow> addr list \<Rightarrow> heap \<Rightarrow> heap" where
  "apply_fill fillValues n as h = fold (\<lambda>a. fold (fill_cell_at fillValues a) [0..<n]) as h"

text \<open>
  \<open>processData\<close> on the store, in the three parts of its text. The first makes \<open>result\<close>:
  the new arrays and objects, with their addresses.
\<close>

record result_refs =
  r_headers :: "string list"
  r_rows :: "addr list"
  r_total :: int
  r_headers_at :: addr
  r_rows_at :: addr
  r_counts_at :: addr
  r_stats_at :: addr
  r_result :: addr

definition copy_dataset :: "addr \<Rightarrow> heap \<Rightarrow> (result_refs \<times> heap) option" where
  "copy_dataset ds h =
     do {
       (hA, rA, sA) \<leftarrow> get_dataset h ds;
       hs \<leftarrow> get_strings h hA;
       rs \<leftarrow> get_refs h rA;
       (total, mA) \<leftarrow> get_stats h sA;
       mv \<leftarrow> get_counts h mA;
       let (hA', h1) = alloc (Strings hs) h;
       (rs', h2) \<leftarrow> copy_rows rs h1;
       let (rA', h3) = alloc (Refs rs') h2;
       let (mA', h4) = alloc (Counts mv) h3;
       let (sA', h5) = alloc (StatsObj total mA') h4;
       let (result, h6) = alloc (DatasetObj hA' rA' sA') h5;
       Some (\<lparr>r_headers = hs, r_rows = rs', r_total = total, r_headers_at = hA',
              r_rows_at = rA', r_counts_at = mA', r_stats_at = sA', r_result = result\<rparr>, h6)
     }"

text \<open>
  The branch for \<open>drop\<close>: \<open>filter\<close> makes a new array, which is assigned to \<open>result.rows\<close>, and
  its length to \<open>result.stats.totalRows\<close>.
\<close>

definition drop_branch :: "result_refs \<Rightarrow> heap \<Rightarrow> addr \<times> heap" where
  "drop_branch c h =
     (let kept = filter (\<lambda>a. \<not> has_empty h a) (r_rows c);
          (rA, h1) = alloc (Refs kept) h;
          h2 = h1[r_result c := DatasetObj (r_headers_at c) rA (r_stats_at c)];
          h3 = h2[r_stats_at c := StatsObj (int (length kept)) (r_counts_at c)]
      in (r_result c, h3))"

text \<open>
  The other strategies: the fill values are computed from the rows of \<open>result\<close>, the rows are
  assigned to, and a new empty object is assigned to \<open>result.stats.missingValues\<close>.
\<close>

definition fill_branch :: "string \<Rightarrow> result_refs \<Rightarrow> heap \<Rightarrow> (addr \<times> heap) option" where
  "fill_branch method c h =
     do {
       texts \<leftarrow> rows_text h (r_rows c);
       let fillValues = map (\<lambda>colIndex. column_fill method (column_values texts colIndex))
                            [0..<length (r_headers c)];
       let h1 = apply_fill fillValues (length (r_headers c)) (r_rows c) h;
       let (mA, h2) = alloc (Counts Map.empty) h1;
       Some (r_result c, h2[r_stats_at c := StatsObj (r_total c) mA])
     }"

text \<open>The address of \<open>result\<close> and the store that \<open>processData\<close> leaves; \<open>ds\<close> is the global \<open>dataset\<close>.\<close>

definition processData_heap :: "string \<Rightarrow> nat \<Rightarrow> addr \<Rightarrow> heap \<Rightarrow> (addr \<times> heap) option" where
  "processData_heap method knnNeighbors ds h =
     do {
       (c, h1) \<leftarrow> copy_dataset ds h;
       if method = ''drop'' then Some (drop_branch c h1) else fill_branch method c h1
     }"

text \<open>A store grows: every object of the old store is still there, unchanged.\<close>

definition grows :: "heap \<Rightarrow> heap \<Rightarrow> bool" where
  "grows h h' \<longleftrightarrow> take (length h) h' = h"

text \<open>
  What the first part of \<open>processData\<close> leaves: \<open>result\<close> and its parts are objects of their
  own, and they hold the headers, rows and statistics of the source.
\<close>

definition copied :: "result_refs \<Rightarrow> heap \<Rightarrow> val dataset \<Rightarrow> bool" where
  "copied c h d \<longleftrightarrow>
     deref h (r_result c) = Some (DatasetObj (r_headers_at c) (r_rows_at c) (r_stats_at c)) \<and>
     deref h (r_headers_at c) = Some (Strings (headers d)) \<and> r_headers c = headers d \<and>
     deref h (r_rows_at c) = Some (Refs (r_rows c)) \<and>
     map (get_fields h) (r_rows c) = map Some (rows d) \<and> distinct (r_rows c) \<and>
     deref h (r_stats_at c) = Some (StatsObj (totalRows (stats d)) (r_counts_at c)) \<and>
     r_total c = totalRows (stats d) \<and>
     deref h (r_counts_at c) = Some (Counts (missingValues (stats d))) \<and>
     r_result c \<noteq> r_stats_at c \<and> r_headers_at c \<noteq> r_result c \<and> r_headers_at c \<noteq> r_stats_at c \<and>
     r_counts_at c \<noteq> r_result c \<and> r_counts_at c \<noteq> r_stats_at c \<and>
     r_rows_at c \<noteq> r_result c \<and> r_rows_at c \<noteq> r_stats_at c \<and>
     r_result c \<notin> set (r_rows c) \<and> r_stats_at c \<notin> set (r_rows c) \<and>
     r_rows_at c \<notin> set (r_rows c) \<and> r_headers_at c \<notin> set (r_rows c) \<and>
     r_counts_at c \<notin> set (r_rows c)"

text \<open>
  A store with one dataset: the column \<open>w\<close> and the rows \<open>x\<close> and the empty field, as
  \<open>parseCSV\<close> leaves them, with the global \<open>dataset\<close> at address 6.
\<close>

definition example_store :: heap where
  "example_store =
     [Strings [''w''], Fields [Str ''x''], Fields [Str []], Refs [1, 2],
      Counts [''w'' \<mapsto> Cnt 1], StatsObj 2 4, DatasetObj 0 3 5]"

definition example_dataset :: "string dataset" where
  "example_dataset =
     \<lparr>headers = [''w''], rows = [[''x''], [[]]],
      stats = \<lparr>totalRows = 2, missingValues = [''w'' \<mapsto> Cnt 1]\<rparr>\<rparr>"

section \<open>Notions used in the statements\<close>

text \<open>
  The number of empty fields, over all rows, at the positions whose header name is \<open>h\<close>;
  and the number of rows whose field at index \<open>i\<close> is empty.
\<close>

definition empty_named :: "string list \<Rightarrow> string list list \<Rightarrow> string \<Rightarrow> nat" where
  "empty_named hs rs h =
     length (filter (\<lambda>iv. snd iv = [] \<and> header_key hs (fst iv) = h) (concat (map (enumerate 0) rs)))"

definition empty_in_column :: "string list list \<Rightarrow> nat \<Rightarrow> nat" where
  "empty_in_column rs i = length (filter (\<lambda>row. i < length row \<and> row ! i = []) rs)"

text \<open>The statistics count column by column: the entry of each header is the count of its own column.\<close>

definition counts_by_column :: "string dataset \<Rightarrow> bool" where
  "counts_by_column d \<longleftrightarrow>
     list_all (\<lambda>i. missingValues (stats d) (headers d ! i) =
                  (if empty_in_column (rows d) i = 0 then None
                   else Some (Cnt (empty_in_column (rows d) i))))
       [0..<length (headers d)]"

text \<open>An entry of \<open>missingValues\<close> read as a number, and the entries the loop can leave behind.\<close>

fun tally :: "mcount option \<Rightarrow> nat" where
  "tally (Some (Cnt n)) = n"
| "tally v = 0"

fun counted :: "mcount option \<Rightarrow> bool" where
  "counted None = True"
| "counted (Some (Cnt n)) = (0 < n)"
| "counted (Some CntNaN) = False"

text \<open>
  A field as a line without a double quote and without a line feed yields it: trimmed,
  and free of commas, double quotes and line feeds.
\<close>

definition plain_field :: "string \<Rightarrow> bool" where
  "plain_field f \<longleftrightarrow>
     trim f = f \<and> CHR '','' \<notin> set f \<and> CHR 0x22 \<notin> set f \<and> CHR 0x0A \<notin> set f"

text \<open>
  The value at position \<open>i\<close> is the first to reach the highest frequency: with this
  occurrence it has occurred as often as any value occurs in the whole list, and before it
  no value had occurred that often.
\<close>

definition reaches_first :: "'k list \<Rightarrow> nat \<Rightarrow> bool" where
  "reaches_first ks i \<longleftrightarrow>
     i < length ks \<and>
     (\<forall>k \<in> set ks. count_list ks k \<le> count_list (take (Suc i) ks) (ks ! i)) \<and>
     (\<forall>k \<in> set ks. count_list (take i ks) k < count_list (take (Suc i) ks) (ks ! i))"

text \<open>
  The loop of the mode on keys and values, with the frequencies as a total function; and
  the objects \<open>frequency\<close> that hold the same counts.
\<close>

definition scan_step :: "('k \<Rightarrow> nat) \<times> nat \<times> 'a \<Rightarrow> 'k \<times> 'a \<Rightarrow> ('k \<Rightarrow> nat) \<times> nat \<times> 'a" where
  "scan_step st kx =
     (case st of
        (cnt, mx, md) \<Rightarrow>
          (cnt(fst kx := Suc (cnt (fst kx))),
           if mx < Suc (cnt (fst kx)) then Suc (cnt (fst kx)) else mx,
           if mx < Suc (cnt (fst kx)) then snd kx else md))"

definition count_map :: "('k \<Rightarrow> nat) \<Rightarrow> ('k \<rightharpoonup> nat)" where
  "count_map cnt k = (if cnt k = 0 then None else Some (cnt k))"

definition fcount_map :: "(string \<Rightarrow> nat) \<Rightarrow> (string \<rightharpoonup> fval)" where
  "fcount_map cnt k = (if cnt k = 0 then None else Some (FCount (cnt k)))"







section \<open>Evaluation\<close>

lemmas codec_eval = parseCSV_def split_lines_def parseCSVLine_def trim_def is_ws_def track_row_def track_missing_def
  header_key_def obj_get_def obj_set_def object_prototype_keys_def Let_def enumerate_eq_zip

lemmas parseFloat_eval = parseFloat_def unsigned_literal_def is_digit_def is_ws_def to_string_def

section \<open>The statistics of parseCSV\<close>

lemma proto_is_inherited: "''__proto__'' \<in> set object_prototype_keys"
  by (simp add: object_prototype_keys_def)

lemma track_missing_at:
  assumes "h \<notin> set object_prototype_keys" "counted (mv h)"
  shows "counted (track_missing hs iv mv h) \<and>
         tally (track_missing hs iv mv h) =
           tally (mv h) + (if snd iv = [] \<and> header_key hs (fst iv) = h then 1 else 0)"
proof -
  from assms(1) have np: "h \<noteq> ''__proto__''" using proto_is_inherited by auto
  show ?thesis
  proof (cases "snd iv = [] \<and> header_key hs (fst iv) = h")
    case True
    then show ?thesis using assms np
      by (cases "mv h" rule: counted.cases) (auto simp: track_missing_def obj_get_def obj_set_def Let_def)
  next
    case False
    then show ?thesis using assms
      by (auto simp: track_missing_def obj_get_def obj_set_def Let_def)
  qed
qed

lemma fold_track_missing:
  assumes "h \<notin> set object_prototype_keys"
  shows "counted (mv h) \<Longrightarrow> counted (fold (track_missing hs) ivs mv h) \<and>
         tally (fold (track_missing hs) ivs mv h) =
           tally (mv h) + length (filter (\<lambda>iv. snd iv = [] \<and> header_key hs (fst iv) = h) ivs)"
proof (induction ivs arbitrary: mv)
  case Nil
  then show ?case by simp
next
  case (Cons iv ivs)
  from track_missing_at[where mv = mv and h = h and hs = hs and iv = iv] assms Cons.prems
  have a: "counted (track_missing hs iv mv h)"
    and b: "tally (track_missing hs iv mv h) =
           tally (mv h) + (if snd iv = [] \<and> header_key hs (fst iv) = h then 1 else 0)" by auto
  from Cons.IH[where mv = "track_missing hs iv mv"] a b show ?case by simp
qed

lemma fold_track_row:
  assumes "h \<notin> set object_prototype_keys"
  shows "counted (mv h) \<Longrightarrow> counted (fold (track_row hs) rs mv h) \<and>
         tally (fold (track_row hs) rs mv h) = tally (mv h) + empty_named hs rs h"
proof (induction rs arbitrary: mv)
  case Nil
  then show ?case by (simp add: empty_named_def)
next
  case (Cons r rs)
  from fold_track_missing[where mv = mv and h = h and hs = hs and ivs = "enumerate 0 r"]
    assms Cons.prems
  have a: "counted (track_row hs r mv h)"
    and b: "tally (track_row hs r mv h) =
       tally (mv h) + length (filter (\<lambda>iv. snd iv = [] \<and> header_key hs (fst iv) = h) (enumerate 0 r))"
    by (auto simp: track_row_def)
  from Cons.IH[where mv = "track_row hs r mv"] a b show ?case by (simp add: empty_named_def)
qed

lemma counted_tally: "counted v \<Longrightarrow> tally v = n \<Longrightarrow> v = (if n = 0 then None else Some (Cnt n))"
  by (cases v rule: counted.cases) auto

lemma filter_enumerate_at:
  "filter (\<lambda>iv. P (snd iv) \<and> fst iv = i) (enumerate n xs) =
     (if n \<le> i \<and> i < n + length xs \<and> P (xs ! (i - n)) then [(i, xs ! (i - n))] else [])"
proof (induction xs arbitrary: n)
  case Nil
  then show ?case by simp
next
  case (Cons x xs)
  show ?case
  proof (cases "i = n")
    case True
    then show ?thesis using Cons.IH[of "Suc n"] by auto
  next
    case False
    then show ?thesis using Cons.IH[of "Suc n"] by (auto simp: Suc_diff_le)
  qed
qed

lemma empty_named_unique:
  assumes i: "i < length hs" and u: "\<forall>j < length hs. hs ! j = hs ! i \<longrightarrow> j = i"
    and und: "hs ! i \<noteq> ''undefined'' \<or> (\<forall>r \<in> set rs. length r \<le> length hs)"
  shows "empty_named hs rs (hs ! i) = empty_in_column rs i"
proof -
  have row: "length (filter (\<lambda>iv. snd iv = [] \<and> header_key hs (fst iv) = hs ! i) (enumerate 0 r))
        = (if i < length r \<and> r ! i = [] then 1 else 0)"
    if "hs ! i \<noteq> ''undefined'' \<or> length r \<le> length hs" for r :: "string list"
  proof -
    have "filter (\<lambda>iv. snd iv = [] \<and> header_key hs (fst iv) = hs ! i) (enumerate 0 r)
        = filter (\<lambda>iv. snd iv = [] \<and> fst iv = i) (enumerate 0 r)"
      using that i u by (intro filter_cong refl) (auto simp: header_key_def in_set_enumerate_eq)
    then show ?thesis
      using filter_enumerate_at[where P = "\<lambda>v. v = []" and i = i and n = 0 and xs = r] by simp
  qed
  show ?thesis using und
  proof (induction rs)
    case Nil
    then show ?case by (simp add: empty_named_def empty_in_column_def)
  next
    case (Cons r rs)
    then have "hs ! i \<noteq> ''undefined'' \<or> length r \<le> length hs" by auto
    from row[OF this] Cons show ?case
      by (auto simp: empty_named_def empty_in_column_def)
  qed
qed

text \<open>
  C2, as stated: for every dataset that \<open>parseCSV\<close> produces and every header, the entry of
  \<open>missingValues\<close> under the header's name is the number of rows whose field at the
  header's index is empty, also when names repeat. It fails for the header line \<open>a,a\<close>
  followed by the row \<open>,\<close>: both empty fields are counted under the one name \<open>a\<close>, which
  reads 2, while each of the two columns has one empty field.
\<close>

theorem missingValues_duplicate_header_counterexample:
  "\<not> isl (parseCSV (''a,a'' @ [CHR 0x0A] @ '','')) \<and>
   \<not> counts_by_column (projr (parseCSV (''a,a'' @ [CHR 0x0A] @ '','')))"
  by (simp add: codec_eval counts_by_column_def empty_in_column_def)

text \<open>
  C2, amended: for every dataset that \<open>parseCSV\<close> produces and every name \<open>h\<close> that is not
  a member name of \<open>Object.prototype\<close>, the entry \<open>missingValues[h]\<close> is the number of empty
  fields, over all rows, at the positions whose header name is \<open>h\<close> (every column so named;
  a position past the last header goes under the name \<open>undefined\<close>), and there is no entry
  when that number is zero. When \<open>h\<close> names exactly one column, at index \<open>i\<close>, and \<open>h\<close> is not
  \<open>undefined\<close> or no row is longer than the header, this is the number of rows whose field
  at index \<open>i\<close> is empty.
\<close>

theorem missingValues_counts_by_name:
  assumes "parseCSV content = Inr d" and "h \<notin> set object_prototype_keys"
  shows "missingValues (stats d) h =
           (if empty_named (headers d) (rows d) h = 0 then None
            else Some (Cnt (empty_named (headers d) (rows d) h))) \<and>
         (\<forall>i < length (headers d).
            headers d ! i = h \<and> (\<forall>j < length (headers d). headers d ! j = h \<longrightarrow> j = i) \<and>
            (h \<noteq> ''undefined'' \<or> (\<forall>r \<in> set (rows d). length r \<le> length (headers d)))
            \<longrightarrow> empty_named (headers d) (rows d) h = empty_in_column (rows d) i)"
proof
  obtain l0 rest where d: "d = \<lparr>headers = parseCSVLine l0, rows = map parseCSVLine rest,
        stats = \<lparr>totalRows = int (length (l0 # rest)) - 1,
                 missingValues = fold (track_row (parseCSVLine l0)) (map parseCSVLine rest) Map.empty\<rparr>\<rparr>"
    using assms(1) by (auto simp: parseCSV_def Let_def split: list.splits)
  have "counted (Map.empty h)" by simp
  with fold_track_row[where mv = Map.empty and h = h and hs = "headers d" and rs = "rows d"] assms(2)
  have "counted (missingValues (stats d) h)"
    and "tally (missingValues (stats d) h) = empty_named (headers d) (rows d) h"
    unfolding d by simp_all
  then show "missingValues (stats d) h =
           (if empty_named (headers d) (rows d) h = 0 then None
            else Some (Cnt (empty_named (headers d) (rows d) h)))"
    by (rule counted_tally)
next
  show "\<forall>i < length (headers d).
            headers d ! i = h \<and> (\<forall>j < length (headers d). headers d ! j = h \<longrightarrow> j = i) \<and>
            (h \<noteq> ''undefined'' \<or> (\<forall>r \<in> set (rows d). length r \<le> length (headers d)))
            \<longrightarrow> empty_named (headers d) (rows d) h = empty_in_column (rows d) i"
    using empty_named_unique[of _ "headers d" "rows d"] by blast
qed

theorem missingValues_counts_by_name_witness:
  "parseCSV (''a,b'' @ [CHR 0x0A] @ '',1'' @ [CHR 0x0A] @ '','')
     = Inr (projr (parseCSV (''a,b'' @ [CHR 0x0A] @ '',1'' @ [CHR 0x0A] @ '',''))) \<and>
   ''a'' \<notin> set object_prototype_keys \<and>
   missingValues (stats (projr (parseCSV (''a,b'' @ [CHR 0x0A] @ '',1'' @ [CHR 0x0A] @ '','')))) ''a''
     = Some (Cnt 2) \<and>
   empty_in_column (rows (projr (parseCSV (''a,b'' @ [CHR 0x0A] @ '',1'' @ [CHR 0x0A] @ '','')))) 0 = 2"
proof -
  let ?c = "''a,b'' @ [CHR 0x0A] @ '',1'' @ [CHR 0x0A] @ '',''"
  have h1: "parseCSV ?c = Inr (projr (parseCSV ?c))" by (simp add: codec_eval)
  have h2: "''a'' \<notin> set object_prototype_keys" by (simp add: object_prototype_keys_def)
  have e: "empty_named (headers (projr (parseCSV ?c))) (rows (projr (parseCSV ?c))) ''a'' = 2"
    by (simp add: codec_eval empty_named_def)
  have c: "empty_in_column (rows (projr (parseCSV ?c))) 0 = 2"
    by (simp add: codec_eval empty_in_column_def)
  from missingValues_counts_by_name[OF h1 h2, THEN conjunct1]
  have r: "missingValues (stats (projr (parseCSV ?c))) ''a'' = Some (Cnt 2)"
    unfolding e by simp
  show ?thesis by (intro conjI h1 h2 r c)
qed

section \<open>Dropping rows\<close>

lemma processData_drop:
  "processData ''drop'' k d =
     \<lparr>headers = headers d,
      rows = map (map Str) (filter (\<lambda>row. [] \<notin> set row) (rows d)),
      stats = \<lparr>totalRows = int (length (filter (\<lambda>row. [] \<notin> set row) (rows d))),
               missingValues = missingValues (stats d)\<rparr>\<rparr>"
  by (simp add: processData_def Let_def list_ex_iff)

text \<open>
  C1: with the strategy \<open>drop\<close>, the cleaned dataset has an empty \<open>missingValues\<close> map. The
  code returns from the \<open>drop\<close> branch before the statement that resets the map, so the
  cleaned dataset carries the counts of the source. For the header line \<open>a,b\<close> and the row
  \<open>1,\<close> no row is left, and \<open>missingValues\<close> still reads 1 under \<open>b\<close>.
\<close>

theorem drop_keeps_missingValues:
  "rows (processData ''drop'' 5 (projr (parseCSV (''a,b'' @ [CHR 0x0A] @ ''1,'')))) = [] \<and>
   missingValues (stats (processData ''drop'' 5 (projr (parseCSV (''a,b'' @ [CHR 0x0A] @ ''1,''))))) ''b''
     = Some (Cnt 1)"
  by (simp add: processData_drop codec_eval)

text \<open>
  C7: with the strategy \<open>drop\<close>, the rows of the cleaned dataset are the rows of the source
  that have no empty field, in their order; \<open>totalRows\<close> is their number; so there are at
  most as many rows as in the source, and none has an empty field.
\<close>

theorem drop_rows:
  "rows (processData ''drop'' k d) = map (map Str) (filter (\<lambda>row. [] \<notin> set row) (rows d)) \<and>
   totalRows (stats (processData ''drop'' k d)) = int (length (rows (processData ''drop'' k d))) \<and>
   length (rows (processData ''drop'' k d)) \<le> length (rows d) \<and>
   (\<forall>row \<in> set (rows (processData ''drop'' k d)). Str [] \<notin> set row)"
  by (auto simp add: processData_drop)

theorem drop_rows_witness:
  "rows (processData ''drop'' 5 (projr (parseCSV (''a,b'' @ [CHR 0x0A] @ ''1,'' @ [CHR 0x0A] @ ''2,3''))))
     = [[Str ''2'', Str ''3'']] \<and>
   totalRows (stats (processData ''drop'' 5 (projr (parseCSV (''a,b'' @ [CHR 0x0A] @ ''1,'' @ [CHR 0x0A] @ ''2,3''))))) = 1 \<and>
   Str [] \<notin> set [Str ''2'', Str ''3'']"
  using drop_rows[of 5 "projr (parseCSV (''a,b'' @ [CHR 0x0A] @ ''1,'' @ [CHR 0x0A] @ ''2,3''))"]
  by (simp add: codec_eval)

section \<open>Filling\<close>

lemma column_fill_knn: "column_fill ''knn'' vals = column_fill ''mode'' vals"
  by (simp add: column_fill_def Let_def)

text \<open>
  C5: for every dataset and every neighbour count, the strategy \<open>knn\<close> returns the dataset
  that the strategy \<open>mode\<close> returns.
\<close>

theorem knn_is_mode: "processData ''knn'' k d = processData ''mode'' k' d"
  by (simp add: processData_def column_fill_knn)

lemma fill_cell_nth:
  "j < length row \<Longrightarrow>
   fill_cell fv c row ! j =
     (if j = c \<and> row ! c = Str [] \<and> fv ! c \<noteq> Undefined then formatted (fv ! c) else row ! j)"
  by (auto simp add: fill_cell_def nth_list_update)

lemma fill_cell_length: "length (fill_cell fv c row) = length row"
  by (simp add: fill_cell_def)

lemma fill_row_Suc: "fill_row fv (Suc n) row = fill_cell fv n (fill_row fv n row)"
  by (simp add: fill_row_def)

lemma fill_row_length: "length (fill_row fv n row) = length row"
  by (induction n) (simp_all add: fill_row_Suc fill_cell_length, simp add: fill_row_def)

lemma fill_row_nth:
  "j < length row \<Longrightarrow>
   fill_row fv n row ! j =
     (if j < n \<and> row ! j = Str [] \<and> fv ! j \<noteq> Undefined then formatted (fv ! j) else row ! j)"
proof (induction n arbitrary: j)
  case 0
  then show ?case by (simp add: fill_row_def)
next
  case (Suc n)
  have len: "j < length (fill_row fv n row)" using Suc.prems by (simp add: fill_row_length)
  show ?case
  proof (cases "j = n")
    case True
    with Suc.IH[of n] Suc.prems have "fill_row fv n row ! n = row ! n" by simp
    with True len show ?thesis by (simp add: fill_row_Suc fill_cell_nth)
  next
    case False
    with Suc.IH[OF Suc.prems] len show ?thesis
      by (auto simp add: fill_row_Suc fill_cell_nth less_Suc_eq)
  qed
qed

text \<open>A row of the cleaned dataset, and a field of it, for a strategy other than \<open>drop\<close>.\<close>

lemma processData_row:
  assumes "method \<noteq> ''drop''" and "i < length (rows d)"
  shows "rows (processData method k d) ! i =
           fill_row (map (\<lambda>c. column_fill method (column_values (rows d) c)) [0..<length (headers d)])
             (length (headers d)) (map Str (rows d ! i))"
  using assms by (simp add: processData_def Let_def)

lemma processData_cell:
  assumes "method \<noteq> ''drop''" and "i < length (rows d)" and "c < length (rows d ! i)"
  shows "rows (processData method k d) ! i ! c =
           (if c < length (headers d) \<and> rows d ! i ! c = [] \<and>
               column_fill method (column_values (rows d) c) \<noteq> Undefined
            then formatted (column_fill method (column_values (rows d) c))
            else Str (rows d ! i ! c))"
  using assms by (auto simp add: processData_row fill_row_nth)

text \<open>
  C10: with the strategies \<open>mean\<close>, \<open>median\<close>, \<open>mode\<close> and \<open>knn\<close>, the cleaned dataset has the
  headers of the source, as many rows, each row in its place and of its length, and every
  field that is not the empty string in the source unchanged; only an empty field can differ.
\<close>

theorem fill_preserves_table:
  assumes "method \<in> set [''mean'', ''median'', ''mode'', ''knn'']"
  shows "headers (processData method k d) = headers d \<and>
         length (rows (processData method k d)) = length (rows d) \<and>
         (\<forall>i < length (rows d).
            length (rows (processData method k d) ! i) = length (rows d ! i) \<and>
            (\<forall>j < length (rows d ! i).
               rows d ! i ! j \<noteq> [] \<longrightarrow> rows (processData method k d) ! i ! j = Str (rows d ! i ! j)))"
proof -
  from assms have nd: "method \<noteq> ''drop''" by auto
  have "headers (processData method k d) = headers d"
    and "length (rows (processData method k d)) = length (rows d)"
    using nd by (simp_all add: processData_def Let_def)
  moreover have "length (rows (processData method k d) ! i) = length (rows d ! i)"
    if "i < length (rows d)" for i
    using that nd by (simp add: processData_row fill_row_length)
  moreover have "rows (processData method k d) ! i ! j = Str (rows d ! i ! j)"
    if "i < length (rows d)" and "j < length (rows d ! i)" and "rows d ! i ! j \<noteq> []" for i j
    using that nd by (simp add: processData_cell)
  ultimately show ?thesis by blast
qed

theorem fill_preserves_table_witness:
  "''mean'' \<in> set [''mean'', ''median'', ''mode'', ''knn''] \<and>
   headers (processData ''mean'' 5 (projr (parseCSV (''name,age'' @ [CHR 0x0A] @ ''Bob,'')))) = [''name'', ''age''] \<and>
   length (rows (processData ''mean'' 5 (projr (parseCSV (''name,age'' @ [CHR 0x0A] @ ''Bob,''))))) = 1 \<and>
   rows (processData ''mean'' 5 (projr (parseCSV (''name,age'' @ [CHR 0x0A] @ ''Bob,'')))) ! 0 ! 0 = Str ''Bob''"
proof -
  let ?d = "projr (parseCSV (''name,age'' @ [CHR 0x0A] @ ''Bob,''))"
  have m: "''mean'' \<in> set [''mean'', ''median'', ''mode'', ''knn'']" by simp
  have h: "headers ?d = [''name'', ''age'']" and r: "rows ?d = [[''Bob'', []]]"
    by (simp_all add: codec_eval)
  from fill_preserves_table[OF m, of 5 ?d] show ?thesis
    unfolding h r by simp
qed

section \<open>Numeric and text columns\<close>









section \<open>Double arithmetic\<close>









































section \<open>The mean\<close>








section \<open>The mode\<close>

lemmas mode_eval = column_fill_def numericValue_def of_cell_def mode_text_def text_step_def
  column_values_def

lemma scan_invariant:
  "foldl scan_step (\<lambda>k. 0, 0, d) ps = (cnt, mx, md) \<Longrightarrow>
   cnt = count_list (map fst ps) \<and> (\<forall>k. count_list (map fst ps) k \<le> mx) \<and>
   (ps \<noteq> [] \<longrightarrow>
      (\<exists>i < length ps. md = snd (ps ! i) \<and>
         count_list (take (Suc i) (map fst ps)) (fst (ps ! i)) = mx \<and>
         (\<forall>k. count_list (take i (map fst ps)) k < mx)))"
proof (induction ps arbitrary: cnt mx md rule: rev_induct)
  case Nil
  then show ?case by auto
next
  case (snoc p ps)
  obtain cnt0 mx0 md0 where st: "foldl scan_step (\<lambda>k. 0, 0, d) ps = (cnt0, mx0, md0)"
    by (cases "foldl scan_step (\<lambda>k. 0, 0, d) ps") auto
  from snoc.IH[OF st] have c0: "cnt0 = count_list (map fst ps)"
    and m0: "\<And>k. count_list (map fst ps) k \<le> mx0"
    and i0: "ps \<noteq> [] \<Longrightarrow> \<exists>i < length ps. md0 = snd (ps ! i) \<and>
         count_list (take (Suc i) (map fst ps)) (fst (ps ! i)) = mx0 \<and>
         (\<forall>k. count_list (take i (map fst ps)) k < mx0)"
    by auto
  let ?n = "Suc (count_list (map fst ps) (fst p))"
  from snoc.prems have "scan_step (cnt0, mx0, md0) p = (cnt, mx, md)" by (simp add: st)
  with c0 have
    cnt: "cnt = (count_list (map fst ps))(fst p := ?n)"
    and mx: "mx = (if mx0 < ?n then ?n else mx0)"
    and md: "md = (if mx0 < ?n then snd p else md0)"
    by (auto simp: scan_step_def)
  have 1: "cnt = count_list (map fst (ps @ [p]))"
    unfolding cnt by (auto simp: fun_eq_iff)
  have 2: "\<forall>k. count_list (map fst (ps @ [p])) k \<le> mx"
  proof
    fix k
    show "count_list (map fst (ps @ [p])) k \<le> mx"
      using m0[of k] m0[of "fst p"] unfolding mx by auto
  qed
  have 3: "\<exists>i < length (ps @ [p]). md = snd ((ps @ [p]) ! i) \<and>
         count_list (take (Suc i) (map fst (ps @ [p]))) (fst ((ps @ [p]) ! i)) = mx \<and>
         (\<forall>k. count_list (take i (map fst (ps @ [p]))) k < mx)"
  proof (cases "mx0 < ?n")
    case True
    have "\<forall>k. count_list (map fst ps) k < ?n"
      using m0 True by (meson le_less_trans)
    with True show ?thesis unfolding mx md
      by (intro exI[of _ "length ps"]) auto
  next
    case False
    then have "ps \<noteq> []" using st by (cases ps) auto
    from i0[OF this] obtain i where i: "i < length ps" and a: "md0 = snd (ps ! i)"
      and b: "count_list (take (Suc i) (map fst ps)) (fst (ps ! i)) = mx0"
      and c: "\<forall>k. count_list (take i (map fst ps)) k < mx0" by blast
    from i False a b c show ?thesis unfolding mx md
      by (intro exI[of _ i]) (auto simp: nth_append)
  qed
  from 1 2 3 show ?case by blast
qed

lemma number_step_scan:
  "number_step (count_map cnt, mx, md) num =
     (case scan_step (cnt, mx, md) (num_key num, num) of (c, m, d) \<Rightarrow> (count_map c, m, d))"
  by (auto simp: number_step_def scan_step_def count_map_def fun_eq_iff Let_def)

lemma foldl_number_scan:
  "foldl number_step (count_map cnt, mx, md) nums =
     (case foldl scan_step (cnt, mx, md) (map (\<lambda>x. (num_key x, x)) nums) of
        (c, m, d) \<Rightarrow> (count_map c, m, d))"
proof (induction nums arbitrary: cnt mx md)
  case Nil
  then show ?case by simp
next
  case (Cons x xs)
  obtain c m d where s: "scan_step (cnt, mx, md) (num_key x, x) = (c, m, d)"
    by (cases "scan_step (cnt, mx, md) (num_key x, x)") auto
  with Cons.IH[of c m d] show ?case by (simp add: number_step_scan)
qed

lemma text_step_scan:
  assumes "to_string v \<notin> set object_prototype_keys"
  shows "text_step (fcount_map cnt, mx, md) v =
     (case scan_step (cnt, mx, md) (to_string v, v) of (c, m, d) \<Rightarrow> (fcount_map c, m, d))"
proof -
  from assms have "to_string v \<noteq> ''__proto__''" using proto_is_inherited by auto
  with assms show ?thesis
    by (auto simp: text_step_def scan_step_def fcount_map_def obj_get_def obj_set_def fun_eq_iff Let_def)
qed

lemma foldl_text_scan:
  "\<forall>v \<in> set vals. to_string v \<notin> set object_prototype_keys \<Longrightarrow>
   foldl text_step (fcount_map cnt, mx, md) vals =
     (case foldl scan_step (cnt, mx, md) (map (\<lambda>v. (to_string v, v)) vals) of
        (c, m, d) \<Rightarrow> (fcount_map c, m, d))"
proof (induction vals arbitrary: cnt mx md)
  case Nil
  then show ?case by simp
next
  case (Cons x xs)
  obtain c m d where s: "scan_step (cnt, mx, md) (to_string x, x) = (c, m, d)"
    by (cases "scan_step (cnt, mx, md) (to_string x, x)") auto
  from Cons.prems have "to_string x \<notin> set object_prototype_keys"
    and "\<forall>v \<in> set xs. to_string v \<notin> set object_prototype_keys" by auto
  with Cons.IH[of c m d] s show ?case by (simp add: text_step_scan)
qed

lemma scan_reaches_first:
  assumes "xs \<noteq> []" and "foldl scan_step (\<lambda>k. 0, 0, d) (map (\<lambda>x. (key x, x)) xs) = (cnt, mx, md)"
  shows "\<exists>i. reaches_first (map key xs) i \<and> md = xs ! i"
proof -
  let ?ps = "map (\<lambda>x. (key x, x)) xs"
  have ks: "map fst ?ps = map key xs" by (simp add: comp_def)
  from scan_invariant[OF assms(2)] assms(1) obtain i where
    i: "i < length xs" and m: "md = snd (?ps ! i)"
    and r: "count_list (take (Suc i) (map key xs)) (fst (?ps ! i)) = mx"
    and b: "\<forall>k. count_list (take i (map key xs)) k < mx"
    and a: "\<forall>k. count_list (map key xs) k \<le> mx"
    unfolding ks by auto
  from i m r a b have "reaches_first (map key xs) i \<and> md = xs ! i"
    by (simp add: reaches_first_def)
  then show ?thesis by blast
qed

text \<open>
  Where no collected value is a member name of \<open>Object.prototype\<close>, and in a numeric column,
  the mode is the value that is first to reach the highest frequency.
\<close>

lemma mode_numbers_reaches_first:
  assumes "nums \<noteq> []"
  shows "\<exists>i. reaches_first (map num_key nums) i \<and> mode_numbers nums = nums ! i"
proof -
  obtain cnt mx md where
    s: "foldl scan_step (\<lambda>k. 0, 0, hd nums) (map (\<lambda>x. (num_key x, x)) nums) = (cnt, mx, md)"
    by (cases "foldl scan_step (\<lambda>k. 0, 0, hd nums) (map (\<lambda>x. (num_key x, x)) nums)") auto
  have e: "Map.empty = count_map (\<lambda>k. 0)" by (simp add: count_map_def fun_eq_iff)
  have "mode_numbers nums = md"
    unfolding mode_numbers_def e foldl_number_scan s by simp
  with scan_reaches_first[OF assms s] show ?thesis by simp
qed

lemma mode_text_reaches_first:
  assumes "vals \<noteq> []" and "\<forall>v \<in> set vals. to_string v \<notin> set object_prototype_keys"
  shows "\<exists>i. reaches_first (map to_string vals) i \<and> mode_text vals = vals ! i"
proof -
  obtain cnt mx md where
    s: "foldl scan_step (\<lambda>k. 0, 0, hd vals) (map (\<lambda>v. (to_string v, v)) vals) = (cnt, mx, md)"
    by (cases "foldl scan_step (\<lambda>k. 0, 0, hd vals) (map (\<lambda>v. (to_string v, v)) vals)") auto
  have e: "Map.empty = fcount_map (\<lambda>k. 0)" by (simp add: fcount_map_def fun_eq_iff)
  have "mode_text vals = md"
    unfolding mode_text_def e foldl_text_scan[OF assms(2)] s by simp
  with scan_reaches_first[OF assms(1) s] show ?thesis by simp
qed

lemma mode_text_example: "mode_text [Some ''a'', Some ''b'', Some ''a'', Some ''c''] = Some ''a''"
  by (simp add: mode_text_def text_step_def to_string_def obj_get_def obj_set_def
      object_prototype_keys_def Let_def)

text \<open>
  C4: with the strategies \<open>mode\<close> and \<open>knn\<close>, the fill value of a column is its most frequent
  collected value. The frequencies are kept in an object literal, and a value that is a
  member name of \<open>Object.prototype\<close> is never counted: in the one-column file with the
  rows \<open>constructor\<close>, \<open>constructor\<close>, \<open>a\<close> and an empty field, that field is filled with \<open>a\<close>,
  which occurs once, and not with \<open>constructor\<close>, which occurs twice.
\<close>

theorem mode_misses_inherited_name:
  "rows (projr (parseCSV (''w'' @ [CHR 0x0A] @ ''constructor'' @ [CHR 0x0A] @ ''constructor''
      @ [CHR 0x0A] @ ''a'' @ [CHR 0x0A] @ [CHR 0x22, CHR 0x22])))
     = [[''constructor''], [''constructor''], [''a''], [[]]] \<and>
   column_fill ''mode'' [Some ''constructor'', Some ''constructor'', Some ''a''] = Str ''a'' \<and>
   rows (processData ''mode'' 5 (projr (parseCSV (''w'' @ [CHR 0x0A] @ ''constructor'' @ [CHR 0x0A] @ ''constructor''
      @ [CHR 0x0A] @ ''a'' @ [CHR 0x0A] @ [CHR 0x22, CHR 0x22])))) ! 3 ! 0
     = Str ''a''"
proof -
  let ?d = "projr (parseCSV (''w'' @ [CHR 0x0A] @ ''constructor'' @ [CHR 0x0A] @ ''constructor''
      @ [CHR 0x0A] @ ''a'' @ [CHR 0x0A] @ [CHR 0x22, CHR 0x22]))"
  have h: "headers ?d = [''w'']"
    and r: "rows ?d = [[''constructor''], [''constructor''], [''a''], [[]]]"
    by (simp_all add: codec_eval)
  have v: "column_values (rows ?d) 0 = [Some ''constructor'', Some ''constructor'', Some ''a'']"
    unfolding r by (simp add: column_values_def)
  have f: "column_fill ''mode'' [Some ''constructor'', Some ''constructor'', Some ''a''] = Str ''a''"
    by (simp add: mode_eval parseFloat_eval obj_get_def obj_set_def object_prototype_keys_def Let_def)
  have nd: "''mode'' \<noteq> ''drop''" by simp
  have i: "3 < length (rows ?d)" and c: "0 < length (rows ?d ! 3)" unfolding r by simp_all
  have "rows (processData ''mode'' 5 ?d) ! 3 ! 0 = Str ''a''"
    unfolding processData_cell[OF nd i c] v f unfolding h r by simp
  with r f show ?thesis by (intro conjI)
qed

section \<open>Printing a parsed file again\<close>

lemma split_on_not_Nil: "split_on sep s \<noteq> []"
  by (induction s) (simp_all add: Let_def)

lemma split_on_Cons_sep: "split_on sep (sep # cs) = [] # split_on sep cs"
  by simp

lemma split_on_Cons_other:
  "c \<noteq> sep \<Longrightarrow> split_on sep (c # cs) = (c # hd (split_on sep cs)) # tl (split_on sep cs)"
  by (simp add: Let_def)

lemma split_on_append_sep:
  "sep \<notin> set l \<Longrightarrow> split_on sep (l @ sep # rest) = l # split_on sep rest"
  by (induction l) (auto simp add: Let_def)

lemma split_on_no_sep: "sep \<notin> set l \<Longrightarrow> split_on sep l = [l]"
  by (induction l) (auto simp add: Let_def)

lemma split_on_pieces: "p \<in> set (split_on sep s) \<Longrightarrow> sep \<notin> set p \<and> set p \<subseteq> set s"
proof (induction s arbitrary: p)
  case Nil
  then show ?case by simp
next
  case (Cons c cs)
  obtain q qs where ps: "split_on sep cs = q # qs"
    using split_on_not_Nil[of sep cs] by (cases "split_on sep cs") auto
  have q: "sep \<notin> set q \<and> set q \<subseteq> set cs" using Cons.IH[of q] ps by simp
  have qs: "\<And>p. p \<in> set qs \<Longrightarrow> sep \<notin> set p \<and> set p \<subseteq> set cs" using Cons.IH ps by simp
  show ?case
  proof (cases "c = sep")
    case True
    with Cons.prems ps q qs show ?thesis by (auto simp: Let_def)
  next
    case False
    with Cons.prems ps have "p = c # q \<or> p \<in> set qs" by (auto simp: Let_def)
    with False q qs show ?thesis by auto
  qed
qed

lemma split_on_join_comma:
  "ps \<noteq> [] \<Longrightarrow> \<forall>p \<in> set ps. CHR '','' \<notin> set p \<Longrightarrow> split_on (CHR '','') (join_comma ps) = ps"
proof (induction ps rule: join_comma.induct)
  case 1
  then show ?case by simp
next
  case (2 x)
  then show ?case by (simp add: split_on_no_sep)
next
  case (3 x y ys)
  then show ?case by (simp add: split_on_append_sep)
qed

lemma split_on_terminated:
  "\<forall>l \<in> set ls. sep \<notin> set l \<Longrightarrow> split_on sep (concat (map (\<lambda>l. l @ [sep]) ls)) = ls @ [[]]"
  by (induction ls) (simp_all add: split_on_append_sep)

lemma trim_subset: "set (trim s) \<subseteq> set s"
proof -
  have "set (trim s) \<subseteq> set (rev (dropWhile is_ws s))"
    unfolding trim_def using set_dropWhileD by fastforce
  also have "\<dots> \<subseteq> set s" using set_dropWhileD by fastforce
  finally show ?thesis .
qed

lemma trim_empty_iff: "trim s = [] \<longleftrightarrow> (\<forall>c \<in> set s. is_ws c)"
proof
  assume "trim s = []"
  then have a: "\<forall>c \<in> set (dropWhile is_ws s). is_ws c"
    by (simp add: trim_def dropWhile_eq_Nil_conv)
  have "dropWhile is_ws s = []"
  proof (rule ccontr)
    assume n: "dropWhile is_ws s \<noteq> []"
    then have "\<not> is_ws (hd (dropWhile is_ws s))" by (rule hd_dropWhile)
    moreover have "hd (dropWhile is_ws s) \<in> set (dropWhile is_ws s)" using n by simp
    ultimately show False using a by blast
  qed
  then show "\<forall>c \<in> set s. is_ws c" by (simp add: dropWhile_eq_Nil_conv)
next
  assume "\<forall>c \<in> set s. is_ws c"
  then have d: "dropWhile is_ws s = []" by (induction s) auto
  show "trim s = []" unfolding trim_def d by simp
qed

lemma last_dropWhile_eq: "dropWhile P xs \<noteq> [] \<Longrightarrow> last (dropWhile P xs) = last xs"
  by (induction xs) (auto split: if_splits)

lemma trim_ends:
  assumes "trim s \<noteq> []"
  shows "\<not> is_ws (hd (trim s)) \<and> \<not> is_ws (last (trim s))"
proof -
  let ?u = "dropWhile is_ws s"
  let ?w = "dropWhile is_ws (rev ?u)"
  from assms have w: "?w \<noteq> []" by (simp add: trim_def)
  then have u: "?u \<noteq> []" by (cases "?u = []") simp_all
  have "last (trim s) = hd ?w" using w by (simp add: trim_def last_rev)
  moreover have "\<not> is_ws (hd ?w)" using w by (rule hd_dropWhile)
  moreover have "hd (trim s) = last ?w" using w by (simp add: trim_def hd_rev)
  moreover have "last ?w = last (rev ?u)" using w by (rule last_dropWhile_eq)
  moreover have "last (rev ?u) = hd ?u" using u by (simp add: last_rev)
  moreover have "\<not> is_ws (hd ?u)" using u by (rule hd_dropWhile)
  ultimately show ?thesis by simp
qed

lemma trim_fixed:
  assumes "s = [] \<or> (\<not> is_ws (hd s) \<and> \<not> is_ws (last s))"
  shows "trim s = s"
proof (cases "s = []")
  case True
  then show ?thesis by (simp add: trim_def)
next
  case False
  with assms have h: "\<not> is_ws (hd s)" and l: "\<not> is_ws (last s)" by auto
  from False h have a: "dropWhile is_ws s = s" by (cases s) auto
  from False l have "\<not> is_ws (hd (rev s))" by (simp add: hd_rev)
  with False have b: "dropWhile is_ws (rev s) = rev s" by (cases "rev s") auto
  show ?thesis by (simp add: trim_def a b)
qed

lemma trim_trim: "trim (trim s) = trim s"
  using trim_ends[of s] by (intro trim_fixed) blast

lemma comma_not_ws: "\<not> is_ws (CHR '','')"
  by (simp add: is_ws_def)

text \<open>Without a double quote, \<open>parseCSVLine\<close> trims the pieces between the commas.\<close>

lemma parseCSVLine_loop_unquoted:
  "CHR 0x22 \<notin> set cs \<Longrightarrow>
   parseCSVLine_loop cs (res, False, cur) =
     (res @ map trim (butlast ((cur @ hd (split_on (CHR '','') cs)) # tl (split_on (CHR '','') cs))),
      False,
      last ((cur @ hd (split_on (CHR '','') cs)) # tl (split_on (CHR '','') cs)))"
proof (induction cs arbitrary: res cur)
  case Nil
  then show ?case by simp
next
  case (Cons c cs)
  obtain q qs where ps: "split_on (CHR '','') cs = q # qs"
    using split_on_not_Nil[of "CHR '',''" cs] by (cases "split_on (CHR '','') cs") auto
  from Cons.prems have nq: "c \<noteq> CHR 0x22" and rest: "CHR 0x22 \<notin> set cs" by auto
  show ?case
  proof (cases "c = CHR '',''")
    case True
    with nq Cons.IH[OF rest, of "res @ [trim cur]" "[]"] ps show ?thesis
      by (simp add: Let_def)
  next
    case False
    with nq Cons.IH[OF rest, of res "cur @ [c]"] ps show ?thesis
      by (simp add: Let_def)
  qed
qed

lemma parseCSVLine_unquoted:
  assumes "CHR 0x22 \<notin> set l"
  shows "parseCSVLine l = map trim (split_on (CHR '','') l)"
proof -
  obtain q qs where ps: "split_on (CHR '','') l = q # qs"
    using split_on_not_Nil[of "CHR '',''" l] by (cases "split_on (CHR '','') l") auto
  have "butlast (q # qs) @ [last (q # qs)] = q # qs" by (rule append_butlast_last_id) simp
  then have "map trim (butlast (q # qs)) @ [trim (last (q # qs))] = map trim (q # qs)"
    by (metis list.simps(8,9) map_append)
  then show ?thesis
    unfolding parseCSVLine_def parseCSVLine_loop_unquoted[OF assms] ps by simp
qed

lemma parseCSVLine_fields:
  assumes "CHR 0x22 \<notin> set l" and "CHR 0x0A \<notin> set l" and "f \<in> set (parseCSVLine l)"
  shows "plain_field f"
proof -
  from assms(1,3) obtain p where p: "p \<in> set (split_on (CHR '','') l)" and f: "f = trim p"
    by (auto simp: parseCSVLine_unquoted)
  from split_on_pieces[OF p] have "CHR '','' \<notin> set p" and "set p \<subseteq> set l" by auto
  with assms(1,2) trim_subset[of p] show ?thesis
    unfolding plain_field_def f by (auto simp: trim_trim)
qed

lemma parseCSVLine_not_Nil: "CHR 0x22 \<notin> set l \<Longrightarrow> parseCSVLine l \<noteq> []"
  by (simp add: parseCSVLine_unquoted split_on_not_Nil)

lemma parseCSVLine_join:
  assumes "fs \<noteq> []" and "\<forall>f \<in> set fs. plain_field f"
  shows "parseCSVLine (join_comma fs) = fs"
proof -
  have nq: "CHR 0x22 \<notin> set (join_comma fs)" using assms(2)
    by (induction fs rule: join_comma.induct) (auto simp: plain_field_def)
  have "split_on (CHR '','') (join_comma fs) = fs"
    using assms by (intro split_on_join_comma) (auto simp: plain_field_def)
  moreover have "map trim fs = fs" using assms(2) by (induction fs) (auto simp: plain_field_def)
  ultimately show ?thesis by (simp add: parseCSVLine_unquoted[OF nq])
qed

lemma join_comma_no_lf:
  "\<forall>f \<in> set fs. plain_field f \<Longrightarrow> CHR 0x0A \<notin> set (join_comma fs)"
  by (induction fs rule: join_comma.induct) (auto simp: plain_field_def)

lemma join_comma_has_comma:
  "2 \<le> length fs \<Longrightarrow> CHR '','' \<in> set (join_comma fs)"
  by (induction fs rule: join_comma.induct) auto

lemma join_parsed_not_blank:
  assumes "CHR 0x22 \<notin> set l" and "trim l \<noteq> []"
  shows "trim (join_comma (parseCSVLine l)) \<noteq> []"
proof (cases "CHR '','' \<in> set l")
  case False
  then have "parseCSVLine l = [trim l]"
    using assms(1) by (simp add: parseCSVLine_unquoted split_on_no_sep)
  with assms(2) show ?thesis by (simp add: trim_trim)
next
  case True
  then obtain a b where l: "l = a @ CHR '','' # b" and a: "CHR '','' \<notin> set a"
    by (meson split_list_first)
  have "split_on (CHR '','') l = a # split_on (CHR '','') b"
    unfolding l using a by (rule split_on_append_sep)
  then have "2 \<le> length (parseCSVLine l)"
    using assms(1) split_on_not_Nil[of "CHR '',''" b]
    by (cases "split_on (CHR '','') b") (auto simp: parseCSVLine_unquoted)
  then have "CHR '','' \<in> set (join_comma (parseCSVLine l))" by (rule join_comma_has_comma)
  with comma_not_ws show ?thesis by (auto simp: trim_empty_iff)
qed

lemma foldl_append_concat: "foldl (\<lambda>acc x. acc @ g x) a xs = a @ concat (map g xs)"
  by (induction xs arbitrary: a) simp_all

lemma csvContent_concat:
  "csvContent pn c =
     join_comma (headers c) @ [CHR 0x0A] @
     concat (map (\<lambda>row. join_comma (map (csv_field pn) row) @ [CHR 0x0A]) (rows c))"
  unfolding csvContent_def
  using foldl_append_concat[of "\<lambda>row. join_comma (map (csv_field pn) row) @ [CHR 0x0A]"
      "join_comma (headers c) @ [CHR 0x0A]" "rows c"]
  by simp

lemma csv_field_plain: "\<forall>f \<in> set fs. plain_field f \<Longrightarrow> map (csv_field pn) (map Str fs) = fs"
  by (induction fs) (auto simp: plain_field_def)

lemma join_comma_no_quote:
  "\<forall>f \<in> set fs. plain_field f \<Longrightarrow> CHR 0x22 \<notin> set (join_comma fs)"
  by (induction fs rule: join_comma.induct) (auto simp: plain_field_def)

lemma concat_map_eq: "\<forall>x \<in> set xs. f x = g x \<Longrightarrow> concat (map f xs) = concat (map g xs)"
  by (induction xs) auto

lemma reserialize_lines:
  assumes "filter (\<lambda>line. trim line \<noteq> []) (split_lines c) = l0 # rest"
  shows "reserialize pn c =
           Inr (join_comma (parseCSVLine l0) @ [CHR 0x0A] @
                concat (map (\<lambda>l. join_comma (map (csv_field pn) (map Str (parseCSVLine l))) @ [CHR 0x0A]) rest))"
  using assms
  by (simp add: reserialize_def parseCSV_def as_cleaned_def csvContent_concat Let_def comp_def)

lemma reserialize_plain_lines:
  assumes "filter (\<lambda>line. trim line \<noteq> []) (split_lines c) = l0 # rest"
    and "\<forall>l \<in> set rest. CHR 0x22 \<notin> set l \<and> CHR 0x0A \<notin> set l"
  shows "reserialize pn c =
           Inr (concat (map (\<lambda>l. join_comma (parseCSVLine l) @ [CHR 0x0A]) (l0 # rest)))"
proof -
  have "map (csv_field pn) (map Str (parseCSVLine l)) = parseCSVLine l" if "l \<in> set rest" for l
    using that assms(2) parseCSVLine_fields[of l] by (intro csv_field_plain) blast
  then have "concat (map (\<lambda>l. join_comma (map (csv_field pn) (map Str (parseCSVLine l))) @ [CHR 0x0A]) rest)
           = concat (map (\<lambda>l. join_comma (parseCSVLine l) @ [CHR 0x0A]) rest)"
    by (intro concat_map_eq) simp
  then show ?thesis unfolding reserialize_lines[OF assms(1)] by simp
qed

text \<open>
  C6: for a content without double quotes, printing the parsed content and doing the same
  to the printed text gives the printed text again. This covers every content whose fields
  have no comma, line break, double quote or white space at their ends: commas and line
  breaks only separate fields, and the first pass removes the white space.
\<close>

theorem reserialize_idempotent:
  assumes nq: "CHR 0x22 \<notin> set content" and r: "reserialize pn content = Inr text"
  shows "reserialize pn text = Inr text"
proof -
  define ls where "ls = filter (\<lambda>line. trim line \<noteq> []) (split_lines content)"
  have "ls \<noteq> []"
  proof
    assume "ls = []"
    then have "reserialize pn content = Inl TypeError"
      by (simp add: reserialize_def parseCSV_def ls_def)
    with r show False by simp
  qed
  then obtain l0 rest where ls: "ls = l0 # rest" by (cases ls) auto
  have ok: "CHR 0x22 \<notin> set l \<and> CHR 0x0A \<notin> set l \<and> trim l \<noteq> []" if "l \<in> set ls" for l
  proof -
    from that have p: "l \<in> set (split_on (CHR 0x0A) content)" and t: "trim l \<noteq> []"
      by (auto simp: ls_def split_lines_def)
    from split_on_pieces[OF p] nq t show ?thesis by auto
  qed
  define g where "g = (\<lambda>l. join_comma (parseCSVLine l))"
  have tx: "text = concat (map (\<lambda>l. l @ [CHR 0x0A]) (map g ls))"
  proof -
    have "\<forall>l \<in> set rest. CHR 0x22 \<notin> set l \<and> CHR 0x0A \<notin> set l" using ok ls by simp
    from reserialize_plain_lines[OF ls[unfolded ls_def] this, of pn] r
    show ?thesis unfolding ls g_def by (simp add: comp_def)
  qed
  have g_ok: "CHR 0x0A \<notin> set (g l) \<and> trim (g l) \<noteq> [] \<and> parseCSVLine (g l) = parseCSVLine l \<and>
              CHR 0x22 \<notin> set (g l)"
    if "l \<in> set ls" for l
  proof -
    from ok[OF that] have q: "CHR 0x22 \<notin> set l" and n: "CHR 0x0A \<notin> set l" and t: "trim l \<noteq> []"
      by auto
    have pl: "\<forall>f \<in> set (parseCSVLine l). plain_field f" using parseCSVLine_fields[OF q n] by blast
    have a: "CHR 0x0A \<notin> set (g l)" unfolding g_def using pl by (rule join_comma_no_lf)
    have b: "trim (g l) \<noteq> []" unfolding g_def using q t by (rule join_parsed_not_blank)
    have c: "parseCSVLine (g l) = parseCSVLine l"
      unfolding g_def using parseCSVLine_not_Nil[OF q] pl by (rule parseCSVLine_join)
    have d: "CHR 0x22 \<notin> set (g l)" unfolding g_def using pl by (rule join_comma_no_quote)
    from a b c d show ?thesis by blast
  qed
  have "split_lines text = map g ls @ [[]]"
    unfolding tx split_lines_def using g_ok by (intro split_on_terminated) auto
  then have filt: "filter (\<lambda>line. trim line \<noteq> []) (split_lines text) = g l0 # map g rest"
    using g_ok by (auto simp: ls trim_def filter_id_conv)
  have "\<forall>l \<in> set (map g rest). CHR 0x22 \<notin> set l \<and> CHR 0x0A \<notin> set l" using g_ok ls by auto
  from reserialize_plain_lines[OF filt this, of pn]
  have "reserialize pn text =
          Inr (concat (map (\<lambda>l. join_comma (parseCSVLine l) @ [CHR 0x0A]) (g l0 # map g rest)))" .
  also have "map (\<lambda>l. join_comma (parseCSVLine l) @ [CHR 0x0A]) (g l0 # map g rest)
           = map (\<lambda>l. l @ [CHR 0x0A]) (map g ls)"
    using g_ok unfolding ls by (auto simp: g_def)
  finally show ?thesis unfolding tx .
qed

theorem reserialize_idempotent_witness:
  "CHR 0x22 \<notin> set ('' a ,b'' @ [CHR 0x0A] @ ''1,2'') \<and>
   reserialize (\<lambda>x. []) ('' a ,b'' @ [CHR 0x0A] @ ''1,2'') = Inr (''a,b'' @ [CHR 0x0A] @ ''1,2'' @ [CHR 0x0A]) \<and>
   reserialize (\<lambda>x. []) (''a,b'' @ [CHR 0x0A] @ ''1,2'' @ [CHR 0x0A]) = Inr (''a,b'' @ [CHR 0x0A] @ ''1,2'' @ [CHR 0x0A])"
proof -
  have q: "CHR 0x22 \<notin> set ('' a ,b'' @ [CHR 0x0A] @ ''1,2'')" by simp
  have r: "reserialize (\<lambda>x. []) ('' a ,b'' @ [CHR 0x0A] @ ''1,2'')
             = Inr (''a,b'' @ [CHR 0x0A] @ ''1,2'' @ [CHR 0x0A])"
    by (simp add: reserialize_def codec_eval as_cleaned_def csvContent_def)
  from reserialize_idempotent[OF q r] q r show ?thesis by (intro conjI)
qed

section \<open>processData leaves the source dataset alone\<close>

lemma grows_refl: "grows h h"
  by (simp add: grows_def)

lemma grows_length: "grows h h' \<Longrightarrow> length h \<le> length h'"
proof -
  assume "grows h h'"
  then have "length (take (length h) h') = length h" by (simp add: grows_def)
  then show ?thesis by simp
qed

lemma grows_append: "grows h h1 \<Longrightarrow> grows h (h1 @ ext)"
  using grows_length[of h h1] by (simp add: grows_def)

lemma grows_alloc: "grows h h1 \<Longrightarrow> alloc ob h1 = (a, h2) \<Longrightarrow> grows h h2 \<and> length h \<le> a \<and> a < length h2"
  using grows_length[of h h1] by (auto simp add: alloc_def grows_append)

lemma grows_update: "grows h h1 \<Longrightarrow> length h \<le> a \<Longrightarrow> grows h (h1[a := x])"
  by (simp add: grows_def)

lemma grows_deref: "grows h h' \<Longrightarrow> deref h a = Some ob \<Longrightarrow> deref h' a = Some ob"
proof -
  assume g: "grows h h'" and d: "deref h a = Some ob"
  from d have a: "a < length h" and ob: "h ! a = ob" by (auto simp: deref_def split: if_splits)
  from g have "take (length h) h' ! a = h ! a" by (simp add: grows_def)
  with a have "h' ! a = h ! a" by simp
  with a ob grows_length[OF g] show ?thesis by (simp add: deref_def)
qed

lemma copy_rows_grows:
  "copy_rows rs h1 = Some (as, h2) \<Longrightarrow> grows h h1 \<Longrightarrow>
   grows h h2 \<and> (\<forall>a \<in> set as. length h \<le> a)"
proof (induction rs arbitrary: h1 as)
  case Nil
  then show ?case by simp
next
  case (Cons r rs)
  from Cons.prems(1) obtain cells as' where
    c: "get_fields h1 r = Some cells"
    and r: "copy_rows rs (h1 @ [Fields cells]) = Some (as', h2)"
    and as: "as = length h1 # as'"
    by (auto simp: alloc_def split: bind_splits)
  from Cons.prems(2) have g: "grows h (h1 @ [Fields cells])" by (rule grows_append)
  from Cons.IH[OF r g] as grows_length[OF Cons.prems(2)] show ?case by auto
qed

lemma fill_cell_at_grows:
  "grows h h1 \<Longrightarrow> length h \<le> a \<Longrightarrow> grows h (fill_cell_at fv a c h1)"
  by (simp add: fill_cell_at_def grows_update split: option.splits)

lemma fill_row_at_grows:
  "grows h h1 \<Longrightarrow> length h \<le> a \<Longrightarrow> grows h (fold (fill_cell_at fv a) cs h1)"
  by (induction cs arbitrary: h1) (simp_all add: fill_cell_at_grows)

lemma apply_fill_grows:
  "grows h h1 \<Longrightarrow> \<forall>a \<in> set as. length h \<le> a \<Longrightarrow> grows h (apply_fill fv n as h1)"
  unfolding apply_fill_def
  by (induction as arbitrary: h1) (simp_all add: fill_row_at_grows)

lemma copy_dataset_grows:
  assumes "copy_dataset ds h = Some (c, h1)"
  shows "grows h h1 \<and> length h \<le> r_stats_at c \<and> length h \<le> r_result c \<and>
         (\<forall>a \<in> set (r_rows c). length h \<le> a)"
proof -
  from assms obtain hs rs rs' h2 where
    cp: "copy_rows rs (h @ [Strings hs]) = Some (rs', h2)"
    and c: "r_rows c = rs'" "r_stats_at c = Suc (Suc (length h2))" "r_result c = Suc (Suc (Suc (length h2)))"
    and h1: "\<exists>ext. h1 = h2 @ ext"
    by (auto simp: copy_dataset_def alloc_def split: bind_splits)
  have "grows h (h @ [Strings hs])" by (intro grows_append grows_refl)
  from copy_rows_grows[OF cp this] have g2: "grows h h2" and fresh: "\<forall>a \<in> set rs'. length h \<le> a"
    by auto
  from h1 g2 have "grows h h1" by (auto intro: grows_append)
  with grows_length[OF g2] c fresh show ?thesis by simp
qed

lemma drop_branch_grows:
  assumes "grows h h1" and "length h \<le> r_stats_at c" and "length h \<le> r_result c"
  shows "grows h (snd (drop_branch c h1))"
  using assms by (simp add: drop_branch_def alloc_def Let_def grows_update grows_append)

lemma fill_branch_grows:
  assumes "fill_branch method c h1 = Some (res, h')"
    and "grows h h1" and "length h \<le> r_stats_at c" and "\<forall>a \<in> set (r_rows c). length h \<le> a"
  shows "grows h h'"
proof -
  from assms(1) obtain fv where
    "h' = (apply_fill fv (length (r_headers c)) (r_rows c) h1 @ [Counts Map.empty])
            [r_stats_at c := StatsObj (r_total c) (length (apply_fill fv (length (r_headers c)) (r_rows c) h1))]"
    by (auto simp: fill_branch_def alloc_def Let_def split: bind_splits)
  with apply_fill_grows[OF assms(2,4)] assms(3) show ?thesis
    by (simp add: grows_update grows_append)
qed

lemma processData_heap_grows:
  assumes "processData_heap method k ds h = Some (res, h')"
  shows "grows h h'"
proof -
  from assms obtain c h1 where cd: "copy_dataset ds h = Some (c, h1)"
    and br: "(if method = ''drop'' then Some (drop_branch c h1) else fill_branch method c h1) = Some (res, h')"
    by (auto simp: processData_heap_def split: bind_splits)
  from copy_dataset_grows[OF cd] have g: "grows h h1" and s: "length h \<le> r_stats_at c"
    and r: "length h \<le> r_result c" and f: "\<forall>a \<in> set (r_rows c). length h \<le> a" by auto
  show ?thesis
  proof (cases "method = ''drop''")
    case True
    with br have "h' = snd (drop_branch c h1)" by auto
    with drop_branch_grows[OF g s r] show ?thesis by simp
  next
    case False
    with br have "fill_branch method c h1 = Some (res, h')" by simp
    from fill_branch_grows[OF this g s f] show ?thesis .
  qed
qed

lemma all_some_grows:
  "grows h h' \<Longrightarrow> all_some (map (get_fields h) rs) = Some rws
   \<Longrightarrow> all_some (map (get_fields h') rs) = Some rws"
proof (induction rs arbitrary: rws)
  case Nil
  then show ?case by simp
next
  case (Cons r rs)
  from Cons.prems(2) obtain cells rws' where
    c: "get_fields h r = Some cells" and r: "all_some (map (get_fields h) rs) = Some rws'"
    and rws: "rws = cells # rws'"
    by (auto split: option.splits)
  from c have "deref h r = Some (Fields cells)"
    by (auto simp: get_fields_def split: option.splits obj.splits)
  from grows_deref[OF Cons.prems(1) this] have "get_fields h' r = Some cells"
    by (simp add: get_fields_def)
  with Cons.IH[OF Cons.prems(1) r] rws show ?case by simp
qed

lemma read_dataset_grows:
  assumes "grows h h'" and "read_dataset h ds = Some d"
  shows "read_dataset h' ds = Some d"
proof -
  from assms(2) obtain hA rA sA hs rs rws total mA mv where
    1: "deref h ds = Some (DatasetObj hA rA sA)" and 2: "deref h hA = Some (Strings hs)"
    and 3: "deref h rA = Some (Refs rs)" and 4: "all_some (map (get_fields h) rs) = Some rws"
    and 5: "deref h sA = Some (StatsObj total mA)" and 6: "deref h mA = Some (Counts mv)"
    and d: "d = \<lparr>headers = hs, rows = rws, stats = \<lparr>totalRows = total, missingValues = mv\<rparr>\<rparr>"
    by (auto simp: read_dataset_def get_dataset_def get_strings_def get_refs_def get_stats_def
        get_counts_def split: bind_splits option.splits obj.splits)
  note g = grows_deref[OF assms(1)]
  show ?thesis
    using g[OF 1] g[OF 2] g[OF 3] g[OF 5] g[OF 6] all_some_grows[OF assms(1) 4] d
    by (simp add: read_dataset_def get_dataset_def get_strings_def get_refs_def get_stats_def
        get_counts_def)
qed

section \<open>processData on the store computes processData\<close>

lemma all_some_iff: "all_some xs = Some ys \<longleftrightarrow> xs = map Some ys"
proof (induction xs arbitrary: ys)
  case Nil
  then show ?case by auto
next
  case (Cons x xs)
  show ?case
  proof (cases x)
    case None
    then show ?thesis by auto
  next
    case (Some y)
    with Cons.IH show ?thesis by (cases ys) auto
  qed
qed

lemma deref_append: "a < length h \<Longrightarrow> deref (h @ ext) a = deref h a"
  by (simp add: deref_def nth_append)

lemma deref_at_end: "deref (h @ ob # ext) (length h) = Some ob"
  by (simp add: deref_def)

lemma deref_update: "deref (h[b := x]) a = (if a = b \<and> b < length h then Some x else deref h a)"
  by (simp add: deref_def)

lemma get_fields_append: "get_fields h a = Some cells \<Longrightarrow> get_fields (h @ ext) a = Some cells"
  by (auto simp: get_fields_def deref_def nth_append split: if_splits)

lemma get_fields_update: "a \<noteq> b \<Longrightarrow> get_fields (h[b := x]) a = get_fields h a"
  by (simp add: get_fields_def deref_update)

lemma rows_at_append:
  "map (get_fields h) as = map Some rws \<Longrightarrow> map (get_fields (h @ ext)) as = map Some rws"
proof (induction as arbitrary: rws)
  case Nil
  then show ?case by simp
next
  case (Cons a as)
  then show ?case by (cases rws) (auto simp: get_fields_append)
qed

lemma rows_at_update:
  "map (get_fields h) as = map Some rws \<Longrightarrow> b \<notin> set as \<Longrightarrow>
   map (get_fields (h[b := x])) as = map Some rws"
proof (induction as arbitrary: rws)
  case Nil
  then show ?case by simp
next
  case (Cons a as)
  then show ?case by (cases rws) (auto simp: get_fields_update)
qed

text \<open>The copies of the rows: new arrays with the same fields, at the next addresses.\<close>

lemma copy_rows_spec:
  "map (get_fields h) rs = map Some rws \<Longrightarrow>
   copy_rows rs h = Some ([length h..<length h + length rs], h @ map Fields rws)"
proof (induction rs arbitrary: h rws)
  case Nil
  then show ?case by simp
next
  case (Cons r rs)
  from Cons.prems obtain c rws' where rws: "rws = c # rws'" and c: "get_fields h r = Some c"
    and rest: "map (get_fields h) rs = map Some rws'"
    by (cases rws) auto
  from rest have "map (get_fields (h @ [Fields c])) rs = map Some rws'" by (rule rows_at_append)
  from Cons.IH[OF this]
  have "copy_rows rs (h @ [Fields c])
          = Some ([Suc (length h)..<Suc (length h) + length rs], h @ Fields c # map Fields rws')"
    by simp
  moreover have "[length h..<length h + length (r # rs)]
          = length h # [Suc (length h)..<Suc (length h) + length rs]"
    by (simp add: upt_conv_Cons del: upt_Suc)
  ultimately show ?case using c rws by (simp add: alloc_def del: upt_Suc)
qed

lemma rows_at_copies:
  "map (get_fields (h @ map Fields rws @ ext)) [length h..<length h + length rws] = map Some rws"
  by (rule nth_equalityI) (simp_all add: get_fields_def deref_def nth_append)

lemma strings_of_Str: "strings_of (map Str r) = Some r"
  by (induction r) simp_all

lemma rows_text_Str:
  "map (get_fields h) as = map Some (map (map Str) rs) \<Longrightarrow> rows_text h as = Some rs"
proof -
  assume a: "map (get_fields h) as = map Some (map (map Str) rs)"
  have "map (\<lambda>a. case get_fields h a of None \<Rightarrow> None | Some cells \<Rightarrow> strings_of cells) as
        = map (\<lambda>v. case v of None \<Rightarrow> None | Some cells \<Rightarrow> strings_of cells) (map (get_fields h) as)"
    by simp
  also have "\<dots> = map Some rs" unfolding a by (simp add: comp_def strings_of_Str)
  finally show ?thesis by (simp add: rows_text_def all_some_iff)
qed

text \<open>The rows that \<open>filter\<close> keeps.\<close>

lemma kept_rows:
  "map (get_fields h) as = map Some rws \<Longrightarrow>
   map (get_fields h) (filter (\<lambda>a. \<not> has_empty h a) as)
     = map Some (filter (\<lambda>cells. \<not> list_ex (\<lambda>cell. cell = Str []) cells) rws)"
proof (induction as arbitrary: rws)
  case Nil
  then show ?case by simp
next
  case (Cons a as)
  then show ?case by (cases rws) (auto simp: has_empty_def)
qed

text \<open>The assignments to the fields of the rows.\<close>

lemma fill_cells_at:
  "get_fields h a = Some cells \<Longrightarrow>
   fold (fill_cell_at fv a) cs h = h[a := Fields (fold (fill_cell fv) cs cells)]"
proof (induction cs arbitrary: h cells)
  case Nil
  then have "h ! a = Fields cells"
    by (auto simp: get_fields_def deref_def split: if_splits option.splits obj.splits)
  then have "h[a := Fields cells] = h" by (metis list_update_id)
  then show ?case by simp
next
  case (Cons c cs)
  from Cons.prems have a: "a < length h"
    by (auto simp: get_fields_def deref_def split: if_splits)
  then have "get_fields (h[a := Fields (fill_cell fv c cells)]) a = Some (fill_cell fv c cells)"
    by (simp add: get_fields_def deref_def)
  from Cons.IH[OF this] Cons.prems show ?case by (simp add: fill_cell_at_def)
qed

lemma apply_fill_rows:
  "distinct as \<Longrightarrow> map (get_fields h) as = map Some rws \<Longrightarrow>
   map (get_fields (apply_fill fv n as h)) as = map Some (map (fill_row fv n) rws) \<and>
   length (apply_fill fv n as h) = length h \<and>
   (\<forall>b. b \<notin> set as \<longrightarrow> deref (apply_fill fv n as h) b = deref h b)"
proof (induction as arbitrary: h rws)
  case Nil
  then show ?case by (simp add: apply_fill_def)
next
  case (Cons a as)
  from Cons.prems(2) obtain c rws' where rws: "rws = c # rws'" and c: "get_fields h a = Some c"
    and rest: "map (get_fields h) as = map Some rws'"
    by (cases rws) auto
  let ?h1 = "h[a := Fields (fill_row fv n c)]"
  have step: "apply_fill fv n (a # as) h = apply_fill fv n as ?h1"
    by (simp add: apply_fill_def fill_cells_at[OF c] fill_row_def)
  from Cons.prems(1) have na: "a \<notin> set as" and d: "distinct as" by auto
  from rest na have r1: "map (get_fields ?h1) as = map Some rws'" by (rule rows_at_update)
  from Cons.IH[OF d r1] have
    1: "map (get_fields (apply_fill fv n as ?h1)) as = map Some (map (fill_row fv n) rws')"
    and 2: "length (apply_fill fv n as ?h1) = length ?h1"
    and 3: "\<forall>b. b \<notin> set as \<longrightarrow> deref (apply_fill fv n as ?h1) b = deref ?h1 b"
    by auto
  from c have al: "a < length h" by (auto simp: get_fields_def deref_def split: if_splits)
  from 3 na al have "get_fields (apply_fill fv n as ?h1) a = Some (fill_row fv n c)"
    by (simp add: get_fields_def deref_update)
  with 1 2 3 rws show ?case unfolding step by (auto simp: deref_update)
qed

lemma read_dataset_parts:
  assumes "read_dataset h ds = Some d"
  obtains hA rA sA rs mA where
    "deref h ds = Some (DatasetObj hA rA sA)" and "deref h hA = Some (Strings (headers d))"
    and "deref h rA = Some (Refs rs)" and "map (get_fields h) rs = map Some (rows d)"
    and "deref h sA = Some (StatsObj (totalRows (stats d)) mA)"
    and "deref h mA = Some (Counts (missingValues (stats d)))"
  using assms
  by (auto simp: read_dataset_def get_dataset_def get_strings_def get_refs_def get_stats_def
      get_counts_def all_some_iff split: bind_splits option.splits obj.splits)

lemma read_dataset_of_parts:
  assumes "deref h a = Some (DatasetObj hA rA sA)" and "deref h hA = Some (Strings hs)"
    and "deref h rA = Some (Refs rs)" and "map (get_fields h) rs = map Some rws"
    and "deref h sA = Some (StatsObj n mA)" and "deref h mA = Some (Counts mv)"
  shows "read_dataset h a =
           Some \<lparr>headers = hs, rows = rws, stats = \<lparr>totalRows = n, missingValues = mv\<rparr>\<rparr>"
  using assms
  by (simp add: read_dataset_def get_dataset_def get_strings_def get_refs_def get_stats_def
      get_counts_def all_some_iff[THEN iffD2])

lemma copy_dataset_spec:
  assumes "read_dataset h ds = Some d"
  shows "\<exists>c h1. copy_dataset ds h = Some (c, h1) \<and> copied c h1 d"
proof -
  from assms obtain hA rA sA rs mA where
    1: "deref h ds = Some (DatasetObj hA rA sA)" and 2: "deref h hA = Some (Strings (headers d))"
    and 3: "deref h rA = Some (Refs rs)" and 4: "map (get_fields h) rs = map Some (rows d)"
    and 5: "deref h sA = Some (StatsObj (totalRows (stats d)) mA)"
    and 6: "deref h mA = Some (Counts (missingValues (stats d)))"
    by (rule read_dataset_parts)
  let ?n = "length h" and ?m = "length (rows d)"
  let ?as = "[Suc ?n..<Suc ?n + ?m]"
  let ?ext = "[Refs ?as, Counts (missingValues (stats d)),
               StatsObj (totalRows (stats d)) (?n + ?m + 2),
               DatasetObj ?n (?n + ?m + 1) (?n + ?m + 3)]"
  let ?h1 = "(h @ [Strings (headers d)]) @ map Fields (rows d) @ ?ext"
  let ?c = "\<lparr>r_headers = headers d, r_rows = ?as, r_total = totalRows (stats d),
             r_headers_at = ?n, r_rows_at = ?n + ?m + 1, r_counts_at = ?n + ?m + 2,
             r_stats_at = ?n + ?m + 3, r_result = ?n + ?m + 4\<rparr>"
  from 4 have len: "length rs = ?m" by (metis length_map)
  from 4 have "map (get_fields (h @ [Strings (headers d)])) rs = map Some (rows d)"
    by (rule rows_at_append)
  from copy_rows_spec[OF this]
  have cp: "copy_rows rs (h @ [Strings (headers d)])
        = Some (?as, (h @ [Strings (headers d)]) @ map Fields (rows d))"
    by (simp add: len del: upt_Suc)
  have "copy_dataset ds h = Some (?c, ?h1)"
    using 1 2 3 5 6 cp
    by (simp add: copy_dataset_def get_dataset_def get_strings_def get_refs_def get_stats_def
        get_counts_def alloc_def del: upt_Suc)
  moreover have "map (get_fields ?h1) ?as = map Some (rows d)"
    using rows_at_copies[of "h @ [Strings (headers d)]" "rows d" ?ext] by (simp del: upt_Suc)
  then have "copied ?c ?h1 d"
    by (simp add: copied_def deref_def nth_append del: upt_Suc)
  ultimately show ?thesis by blast
qed

lemma deref_less: "deref h a = Some ob \<Longrightarrow> a < length h"
  by (auto simp: deref_def split: if_splits)

lemma filter_Str_rows:
  "filter (\<lambda>cells. \<not> list_ex (\<lambda>cell. cell = Str []) cells) (map (map Str) rs)
     = map (map Str) (filter (\<lambda>row. [] \<notin> set row) rs)"
  by (induction rs) (auto simp: list_ex_iff)

lemma drop_branch_spec:
  assumes "copied c h (as_cleaned d)"
  shows "read_dataset (snd (drop_branch c h)) (fst (drop_branch c h)) = Some (processData ''drop'' k d)"
proof -
  let ?kept = "filter (\<lambda>a. \<not> has_empty h a) (r_rows c)"
  let ?rws = "map (map Str) (filter (\<lambda>row. [] \<notin> set row) (rows d))"
  let ?h' = "(h @ [Refs ?kept])[r_result c := DatasetObj (r_headers_at c) (length h) (r_stats_at c),
               r_stats_at c := StatsObj (int (length ?kept)) (r_counts_at c)]"
  from assms have
    res: "deref h (r_result c) = Some (DatasetObj (r_headers_at c) (r_rows_at c) (r_stats_at c))"
    and hd: "deref h (r_headers_at c) = Some (Strings (headers d))"
    and rw: "map (get_fields h) (r_rows c) = map Some (map (map Str) (rows d))"
    and st: "deref h (r_stats_at c) = Some (StatsObj (totalRows (stats d)) (r_counts_at c))"
    and ct: "deref h (r_counts_at c) = Some (Counts (missingValues (stats d)))"
    and ne: "r_result c \<noteq> r_stats_at c" "r_headers_at c \<noteq> r_result c"
      "r_headers_at c \<noteq> r_stats_at c" "r_counts_at c \<noteq> r_result c" "r_counts_at c \<noteq> r_stats_at c"
    and nr: "r_result c \<notin> set (r_rows c)" "r_stats_at c \<notin> set (r_rows c)"
    by (simp_all add: copied_def as_cleaned_def)
  note lt = deref_less[OF res] deref_less[OF hd] deref_less[OF st] deref_less[OF ct]
  have out: "drop_branch c h = (r_result c, ?h')"
    by (simp add: drop_branch_def alloc_def Let_def)
  from kept_rows[OF rw] have k: "map (get_fields h) ?kept = map Some ?rws"
    by (simp add: filter_Str_rows)
  then have len: "length ?kept = length (filter (\<lambda>row. [] \<notin> set row) (rows d))"
    by (metis length_map)
  have kk: "r_result c \<notin> set ?kept" "r_stats_at c \<notin> set ?kept" using nr by auto
  have rows': "map (get_fields ?h') ?kept = map Some ?rws"
    by (rule rows_at_update[OF rows_at_update[OF rows_at_append[OF k] kk(1)] kk(2)])
  have 1: "deref ?h' (r_result c) = Some (DatasetObj (r_headers_at c) (length h) (r_stats_at c))"
    using ne lt by (simp add: deref_update deref_def)
  have 2: "deref ?h' (r_headers_at c) = Some (Strings (headers d))"
    using ne lt hd by (simp add: deref_update deref_append)
  have 3: "deref ?h' (length h) = Some (Refs ?kept)"
    using lt by (simp add: deref_update deref_def)
  have 5: "deref ?h' (r_stats_at c) = Some (StatsObj (int (length ?kept)) (r_counts_at c))"
    using lt by (simp add: deref_update)
  have 6: "deref ?h' (r_counts_at c) = Some (Counts (missingValues (stats d)))"
    using ne lt ct by (simp add: deref_update deref_append)
  from read_dataset_of_parts[OF 1 2 3 rows' 5 6] show ?thesis
    unfolding out by (simp add: processData_drop len)
qed

lemma processData_fill:
  "method \<noteq> ''drop'' \<Longrightarrow>
   processData method k d =
     \<lparr>headers = headers d,
      rows = map (fill_row (map (\<lambda>colIndex. column_fill method (column_values (rows d) colIndex))
                               [0..<length (headers d)]) (length (headers d)))
                 (map (map Str) (rows d)),
      stats = \<lparr>totalRows = totalRows (stats d), missingValues = Map.empty\<rparr>\<rparr>"
  by (simp add: processData_def Let_def comp_def)

lemma fill_branch_spec:
  assumes "copied c h (as_cleaned d)" and "method \<noteq> ''drop''"
  shows "\<exists>res h'. fill_branch method c h = Some (res, h') \<and>
           read_dataset h' res = Some (processData method k d)"
proof -
  let ?fv = "map (\<lambda>colIndex. column_fill method (column_values (rows d) colIndex))
               [0..<length (headers d)]"
  let ?h1 = "apply_fill ?fv (length (headers d)) (r_rows c) h"
  let ?h' = "(?h1 @ [Counts Map.empty])[r_stats_at c := StatsObj (totalRows (stats d)) (length ?h1)]"
  from assms(1) have
    res: "deref h (r_result c) = Some (DatasetObj (r_headers_at c) (r_rows_at c) (r_stats_at c))"
    and hd: "deref h (r_headers_at c) = Some (Strings (headers d))" and hs: "r_headers c = headers d"
    and ra: "deref h (r_rows_at c) = Some (Refs (r_rows c))"
    and rw: "map (get_fields h) (r_rows c) = map Some (map (map Str) (rows d))"
    and di: "distinct (r_rows c)"
    and st: "deref h (r_stats_at c) = Some (StatsObj (totalRows (stats d)) (r_counts_at c))"
    and tot: "r_total c = totalRows (stats d)"
    and ne: "r_result c \<noteq> r_stats_at c" "r_headers_at c \<noteq> r_stats_at c" "r_rows_at c \<noteq> r_stats_at c"
    and nr: "r_result c \<notin> set (r_rows c)" "r_stats_at c \<notin> set (r_rows c)"
      "r_rows_at c \<notin> set (r_rows c)" "r_headers_at c \<notin> set (r_rows c)"
    by (simp_all add: copied_def as_cleaned_def)
  from rows_text_Str[OF rw] have tx: "rows_text h (r_rows c) = Some (rows d)" .
  have out: "fill_branch method c h = Some (r_result c, ?h')"
    by (simp add: fill_branch_def tx hs tot alloc_def Let_def)
  from apply_fill_rows[OF di rw, of ?fv "length (headers d)"] have
    rows1: "map (get_fields ?h1) (r_rows c)
              = map Some (map (fill_row ?fv (length (headers d))) (map (map Str) (rows d)))"
    and len: "length ?h1 = length h"
    and same: "\<And>b. b \<notin> set (r_rows c) \<Longrightarrow> deref ?h1 b = deref h b"
    by auto
  from rows1 have "map (get_fields (?h1 @ [Counts Map.empty])) (r_rows c)
              = map Some (map (fill_row ?fv (length (headers d))) (map (map Str) (rows d)))"
    by (rule rows_at_append)
  then have rows': "map (get_fields ?h') (r_rows c)
              = map Some (map (fill_row ?fv (length (headers d))) (map (map Str) (rows d)))"
    using nr(2) by (rule rows_at_update)
  note lt = deref_less[OF res] deref_less[OF hd] deref_less[OF st] deref_less[OF ra]
  have 1: "deref ?h' (r_result c) = Some (DatasetObj (r_headers_at c) (r_rows_at c) (r_stats_at c))"
    using ne lt res same[OF nr(1)] len by (simp add: deref_update deref_append)
  have 2: "deref ?h' (r_headers_at c) = Some (Strings (headers d))"
    using ne lt hd same[OF nr(4)] len by (simp add: deref_update deref_append)
  have 3: "deref ?h' (r_rows_at c) = Some (Refs (r_rows c))"
    using ne lt ra same[OF nr(3)] len by (simp add: deref_update deref_append)
  have 5: "deref ?h' (r_stats_at c) = Some (StatsObj (totalRows (stats d)) (length ?h1))"
    using lt len by (simp add: deref_update)
  have 6: "deref ?h' (length ?h1) = Some (Counts Map.empty)"
    using lt len deref_at_end[of ?h1 "Counts Map.empty" "[]"] by (simp add: deref_update)
  from read_dataset_of_parts[OF 1 2 3 rows' 5 6] out show ?thesis
    by (simp add: processData_fill[OF assms(2)])
qed

lemma processData_heap_computes:
  assumes "read_dataset h ds = Some (as_cleaned d)"
  shows "\<exists>res h'. processData_heap method k ds h = Some (res, h') \<and>
           read_dataset h' res = Some (processData method k d)"
proof -
  from copy_dataset_spec[OF assms] obtain c h1 where
    cd: "copy_dataset ds h = Some (c, h1)" and cp: "copied c h1 (as_cleaned d)" by blast
  show ?thesis
  proof (cases "method = ''drop''")
    case True
    with cd drop_branch_spec[OF cp, of k] show ?thesis
      by (simp add: processData_heap_def split_def) (metis prod.collapse)
  next
    case False
    with cd fill_branch_spec[OF cp False, of k] show ?thesis
      by (auto simp: processData_heap_def)
  qed
qed

text \<open>
  C9: \<open>processData\<close> never changes its input. For every dataset of strings that the global
  \<open>dataset\<close> denotes and every strategy, the call returns; every object that was in the
  store before the call is unchanged after it, so \<open>dataset\<close> denotes the same headers, rows,
  \<open>totalRows\<close> and \<open>missingValues\<close> as before; and the returned object, all of it new, denotes
  the dataset that \<^const>\<open>processData\<close> computes.
\<close>

theorem processData_keeps_source:
  assumes "read_dataset h ds = Some (as_cleaned d)"
  shows "\<exists>res h'. processData_heap method k ds h = Some (res, h') \<and>
           take (length h) h' = h \<and>
           read_dataset h' ds = Some (as_cleaned d) \<and>
           read_dataset h' res = Some (processData method k d)"
proof -
  from processData_heap_computes[OF assms] obtain res h' where
    r: "processData_heap method k ds h = Some (res, h')"
    and o: "read_dataset h' res = Some (processData method k d)" by blast
  from processData_heap_grows[OF r] have g: "grows h h'" .
  from read_dataset_grows[OF g assms] g r o show ?thesis by (auto simp: grows_def)
qed

theorem processData_keeps_source_witness:
  "read_dataset example_store 6 = Some (as_cleaned example_dataset) \<and>
   (\<exists>res h'. processData_heap ''mode'' 5 6 example_store = Some (res, h') \<and>
      take (length example_store) h' = example_store \<and>
      read_dataset h' 6 = Some (as_cleaned example_dataset) \<and>
      read_dataset h' res = Some (processData ''mode'' 5 example_dataset))"
proof -
  have r: "read_dataset example_store 6 = Some (as_cleaned example_dataset)"
    by (simp add: read_dataset_def example_store_def example_dataset_def as_cleaned_def
        get_dataset_def get_strings_def get_refs_def get_fields_def get_stats_def get_counts_def
        deref_def)
  from processData_keeps_source[OF r, of "''mode''" 5] r show ?thesis by (intro conjI)
qed

end
